theory Spec2Isabelle
  imports Main "HOL-Library.Sublist"
begin

section \<open>Strings as the scripts use them\<close>

text \<open>
  JavaScript strings are modelled as \<^typ>\<open>string\<close> (lists of 8-bit characters), so the
  development covers ASCII text: \<open>toLowerCase\<close> maps \<open>A\<close>..\<open>Z\<close> to \<open>a\<close>..\<open>z\<close>, and \<open>trim\<close>
  removes the ASCII white space characters (tab, line feed, vertical tab, form feed,
  carriage return, space) from both ends.
\<close>

definition lower_char :: "char \<Rightarrow> char" where
  "lower_char c =
     (let n = (of_char c :: nat) in if 65 \<le> n \<and> n \<le> 90 then char_of (n + 32) else c)"

definition toLowerCase :: "string \<Rightarrow> string" where
  "toLowerCase s = map lower_char s"

definition is_space :: "char \<Rightarrow> bool" where
  "is_space c = (c \<in> set [CHR 0x09, CHR 0x0A, CHR 0x0B, CHR 0x0C, CHR 0x0D, CHR '' ''])"

definition trim :: "string \<Rightarrow> string" where
  "trim s = rev (dropWhile is_space (rev (dropWhile is_space s)))"

text \<open>\<open>s.includes(t)\<close>: \<open>t\<close> occurs in \<open>s\<close> as a contiguous substring.\<close>

fun js_includes :: "string \<Rightarrow> string \<Rightarrow> bool" where
  "js_includes [] t = (t = [])"
| "js_includes (c # cs) t = (prefix t (c # cs) \<or> js_includes cs t)"

text \<open>Truthiness of a string value: only the empty string is falsy.\<close>

definition truthy :: "string \<Rightarrow> bool" where
  "truthy s = (s \<noteq> [])"


section \<open>The persistent cache: \<open>utils/fileCache.js\<close>\<close>

text \<open>
  \<open>data.lists\<close> maps a list id to its \<open>emails\<close> object, which maps an e-mail address to the
  ISO time stamp at which it was stored. The cache file either does not exist
  (\<open>content = None\<close>), or holds text that \<open>JSON.parse\<close> (or the read itself) rejects
  (\<open>Unparsable\<close>), or holds a document of the schema that \<open>save\<close> writes (\<open>Parsed\<close>). Documents
  of another shape, and keys that name members of \<open>Object.prototype\<close>, are outside the model.
  \<open>writable\<close> says whether \<open>writeFileSync\<close> succeeds; \<open>save\<close> ignores a failed write.
\<close>

type_synonym emails = "string \<rightharpoonup> string"
type_synonym cache_data = "string \<rightharpoonup> emails"

datatype file_content = Unparsable | Parsed cache_data

record disk =
  content :: "file_content option"
  writable :: bool

record FileCache =
  fc_data :: cache_data
  fc_loaded :: bool

definition new_FileCache :: FileCache where
  "new_FileCache = \<lparr>fc_data = Map.empty, fc_loaded = False\<rparr>"

definition load :: "disk \<Rightarrow> FileCache \<Rightarrow> FileCache" where
  "load d fc =
     (if fc_loaded fc then fc
      else (case content d of
              None \<Rightarrow> fc\<lparr>fc_loaded := True\<rparr>
            | Some Unparsable \<Rightarrow> fc\<lparr>fc_data := Map.empty, fc_loaded := True\<rparr>
            | Some (Parsed j) \<Rightarrow> fc\<lparr>fc_data := j, fc_loaded := True\<rparr>))"

definition save :: "FileCache \<Rightarrow> disk \<Rightarrow> disk" where
  "save fc d = (if writable d then d\<lparr>content := Some (Parsed (fc_data fc))\<rparr> else d)"

definition clear :: "disk \<Rightarrow> FileCache \<Rightarrow> disk \<times> FileCache" where
  "clear d fc = (let fc' = fc\<lparr>fc_data := Map.empty\<rparr> in (save fc' d, fc'))"

definition ensureList :: "disk \<Rightarrow> FileCache \<Rightarrow> string \<Rightarrow> FileCache" where
  "ensureList d fc listId =
     (let fc1 = load d fc in
      case fc_data fc1 listId of
        None \<Rightarrow> fc1\<lparr>fc_data := (fc_data fc1)(listId \<mapsto> Map.empty)\<rparr>
      | Some l \<Rightarrow> fc1)"

definition hasEmail :: "disk \<Rightarrow> FileCache \<Rightarrow> string \<Rightarrow> string \<Rightarrow> FileCache \<times> bool" where
  "hasEmail d fc listId email =
     (let fc1 = load d fc; fc2 = ensureList d fc1 listId in
      case fc_data fc2 listId of
        None \<Rightarrow> (fc2, False)
      | Some l \<Rightarrow>
          (fc2, (case l (toLowerCase email) of None \<Rightarrow> False | Some t \<Rightarrow> truthy t)))"

definition setEmail :: "disk \<Rightarrow> FileCache \<Rightarrow> string \<Rightarrow> string \<Rightarrow> string \<Rightarrow> FileCache" where
  "setEmail d fc listId email when =
     (let fc1 = load d fc; fc2 = ensureList d fc1 listId in
      case fc_data fc2 listId of
        None \<Rightarrow> fc2
      | Some l \<Rightarrow> fc2\<lparr>fc_data := (fc_data fc2)(listId \<mapsto> l(toLowerCase email \<mapsto> when))\<rparr>)"


text \<open>
  A persistent cache hit for a list and an address, as \<open>hasEmail\<close> decides it on loaded
  data: the lower-cased address is a key of the list's \<open>emails\<close> object with a truthy value.
\<close>

definition persistent_hit :: "cache_data \<Rightarrow> string \<Rightarrow> string \<Rightarrow> bool" where
  "persistent_hit dat lst email =
     (case dat lst of
        None \<Rightarrow> False
      | Some l \<Rightarrow> (case l (toLowerCase email) of None \<Rightarrow> False | Some t \<Rightarrow> truthy t))"



section \<open>The Sendy client: status check, subscribe and bulk subscribe\<close>

text \<open>
  The Sendy installation is a parameter. \<open>status_api email listId\<close> is the body of the final
  response to the subscription-status request (\<open>None\<close> when the request throws);
  \<open>subscribe_api listId item\<close> is \<open>Inl msg\<close> when the subscribe request throws with message
  \<open>msg\<close> and otherwise \<open>Inr (text, code)\<close>: the trimmed text the classification works on and
  the HTTP status code.
\<close>

datatype status_result = StatusFailed | Status string

definition getSubscriberStatus ::
  "(string \<Rightarrow> string \<Rightarrow> string option) \<Rightarrow> string \<Rightarrow> string \<Rightarrow> status_result" where
  "getSubscriberStatus status_api email listId =
     (case status_api email listId of
        None \<Rightarrow> StatusFailed
      | Some body \<Rightarrow>
          (let raw = trim body; status = toLowerCase raw in
           Status (if status = ''subscribed'' then ''subscribed''
                   else if status = ''unsubscribed'' then ''unsubscribed''
                   else if status = ''unconfirmed'' then ''unconfirmed''
                   else if status = ''bounced'' then ''bounced''
                   else if status = ''complained'' then ''complained''
                   else if status = ''deleted'' then ''deleted''
                   else if status = ''not in list'' then ''not-in-list''
                   else status)))"

record item =
  it_email :: string
  it_name :: string

record sub_result =
  sr_success :: bool
  sr_message :: string
  sr_statusCode :: "nat option"

definition successIndicators :: "string list" where
  "successIndicators = [''true'', ''already subscribed'', ''already subscribed.'', ''1'']"

definition errorIndicators :: "string list" where
  "errorIndicators = [''invalid email'', ''some fields are missing'', ''invalid api key'',
     ''invalid list id'', ''bounced'', ''complained'']"

text \<open>
  The classification at the end of \<open>subscribe\<close>. The disjunct \<open>text === true\<close> of the source
  compares a string with a boolean and is always false.
\<close>

definition classify :: "string \<Rightarrow> nat \<Rightarrow> sub_result" where
  "classify text statusCode =
     (let lower = toLowerCase text;
          hasError = list_ex (\<lambda>e. js_includes lower e) errorIndicators;
          isSuccess = (\<not> hasError \<and>
                       (False \<or> list_ex (\<lambda>si. lower = si \<or> js_includes lower si) successIndicators))
      in \<lparr>sr_success = isSuccess, sr_message = text, sr_statusCode = Some statusCode\<rparr>)"

definition subscribe ::
  "(string \<Rightarrow> item \<Rightarrow> string + string \<times> nat) \<Rightarrow> string \<Rightarrow> item \<Rightarrow> sub_result" where
  "subscribe subscribe_api listId it =
     (case subscribe_api listId it of
        Inl msg \<Rightarrow> \<lparr>sr_success = False, sr_message = msg, sr_statusCode = None\<rparr>
      | Inr (text, code) \<Rightarrow> classify text code)"

record sync_result =
  res_email :: string
  res_success :: bool
  res_dryRun :: bool
  res_message :: string
  res_statusCode :: "nat option"

text \<open>
  JavaScript numbers that come from \<open>parseInt\<close> are integers or \<open>NaN\<close>; \<open>None\<close> is \<open>NaN\<close>.
  \<open>js_slice xs start end\<close> is \<open>xs.slice(start, end)\<close>: a negative index counts from the end
  of the array, and \<open>NaN\<close> is read as \<open>0\<close>.
\<close>

definition js_add :: "int option \<Rightarrow> int option \<Rightarrow> int option" where
  "js_add a b = (case a of None \<Rightarrow> None | Some x \<Rightarrow> (case b of None \<Rightarrow> None | Some y \<Rightarrow> Some (x + y)))"

definition js_rel_index :: "int \<Rightarrow> int option \<Rightarrow> int" where
  "js_rel_index len n =
     (case n of None \<Rightarrow> 0 | Some v \<Rightarrow> (if v < 0 then max (len + v) 0 else min v len))"

definition js_slice :: "'a list \<Rightarrow> int option \<Rightarrow> int option \<Rightarrow> 'a list" where
  "js_slice xs start end =
     (let len = int (length xs); k = js_rel_index len start; fin = js_rel_index len end
      in take (nat (fin - k)) (drop (nat k) xs))"

text \<open>
  The body of \<open>bulkSubscribe\<close>. The accumulator is the \<open>results\<close> array together with the
  trace of the items for which \<open>subscribe\<close> was called. The throttle delay is not modelled.
\<close>

fun bulk_batch ::
  "(string \<Rightarrow> item \<Rightarrow> string + string \<times> nat) \<Rightarrow> string \<Rightarrow> bool \<Rightarrow> item list \<Rightarrow>
   sync_result list \<times> item list \<Rightarrow> sync_result list \<times> item list" where
  "bulk_batch api lst dry [] acc = acc"
| "bulk_batch api lst dry (it # its) (results, calls) =
     (if dry then
        bulk_batch api lst dry its
          (results @ [\<lparr>res_email = it_email it, res_success = False, res_dryRun = True,
                       res_message = ''dry-run'', res_statusCode = None\<rparr>], calls)
      else
        (let res = subscribe api lst it in
         bulk_batch api lst dry its
           (results @ [\<lparr>res_email = it_email it, res_success = sr_success res, res_dryRun = False,
                        res_message = sr_message res, res_statusCode = sr_statusCode res\<rparr>],
            calls @ [it])))"

partial_function (option) bulk_loop ::
  "(string \<Rightarrow> item \<Rightarrow> string + string \<times> nat) \<Rightarrow> string \<Rightarrow> bool \<Rightarrow> int option \<Rightarrow> item list \<Rightarrow>
   int option \<Rightarrow> sync_result list \<times> item list \<Rightarrow> (sync_result list \<times> item list) option" where
  "bulk_loop api lst dry bs items i acc =
     (case i of
        None \<Rightarrow> Some acc
      | Some iv \<Rightarrow>
          (if iv < int (length items) then
             bulk_loop api lst dry bs items (js_add i bs)
               (bulk_batch api lst dry (js_slice items i (js_add i bs)) acc)
           else Some acc))"

definition bulkSubscribe ::
  "(string \<Rightarrow> item \<Rightarrow> string + string \<times> nat) \<Rightarrow> string \<Rightarrow> item list \<Rightarrow> bool \<Rightarrow> int option \<Rightarrow>
   (sync_result list \<times> item list) option" where
  "bulkSubscribe api lst items dry bs = bulk_loop api lst dry bs items (Some 0) ([], [])"


section \<open>The sync run: \<open>scripts/sync_calendly_to_sendy.js\<close>, \<open>scripts/sync_shopify_to_sendy.js\<close>\<close>

text \<open>
  The options the argument loop fills in. \<open>batchSize\<close> and \<open>throttleMs\<close> are results of
  \<open>parseInt\<close>. \<open>orderStatus\<close> and \<open>source\<close> belong to the Shopify script only.
\<close>

record opts =
  dryRun :: bool
  batchSize :: "int option"
  throttleMs :: "int option"
  noCache :: bool
  clearCache :: bool
  noPersistentCache :: bool
  cacheFile :: "string option"
  refreshPersistent :: bool
  since :: "string option"
  until :: "string option"
  listId :: "string option"
  orderStatus :: string
  source :: string

text \<open>
  The in-memory cache (\<open>utils/cache.js\<close>) maps a key to the value stored under it; the
  scripts only ever store \<open>true\<close>. Expiry of an entry after its time to live (one hour by
  default) is not modelled.
\<close>

type_synonym memcache = "string \<rightharpoonup> bool"

definition cache_get :: "memcache \<Rightarrow> string \<Rightarrow> bool" where
  "cache_get m k = (case m k of None \<Rightarrow> False | Some v \<Rightarrow> v)"

definition cacheKey :: "string \<Rightarrow> string \<Rightarrow> string" where
  "cacheKey lst email = ''synced:'' @ lst @ '':'' @ email"

text \<open>
  The state of the loop over the candidate rows: both caches, the queue, the counters,
  and the trace \<open>checked\<close> of the addresses for which the status request was made.
\<close>

record sync_state =
  mem :: memcache
  fcache :: FileCache
  toSubscribe :: "item list"
  c_cached :: nat
  c_alreadySubscribed :: nat
  c_unsubscribed :: nat
  c_bouncedOrComplained :: nat
  c_notInList :: nat
  c_unknownStatus :: nat
  checked :: "string list"

text \<open>
  One iteration of the loop, for the row \<open>r\<close> and the list \<open>lst\<close>. \<open>now\<close> is the time stamp
  \<open>setEmail\<close> takes by default.
\<close>

definition sync_step ::
  "opts \<Rightarrow> string \<Rightarrow> disk \<Rightarrow> (string \<Rightarrow> string \<Rightarrow> string option) \<Rightarrow> string \<Rightarrow>
   sync_state \<Rightarrow> item \<Rightarrow> sync_state" where
  "sync_step opt lst d status_api now st r =
     (let key = cacheKey lst (it_email r);
          lowerEmail = toLowerCase (it_email r);
          (fc1, hasPersistent) =
             (if noPersistentCache opt then (fcache st, False)
              else hasEmail d (fcache st) lst lowerEmail);
          st1 = st\<lparr>fcache := fc1\<rparr>
      in
      if \<not> noCache opt \<and> cache_get (mem st1) key then
        st1\<lparr>c_cached := c_cached st1 + 1\<rparr>
      else if hasPersistent then
        st1\<lparr>c_alreadySubscribed := c_alreadySubscribed st1 + 1\<rparr>
      else
        (let status = getSubscriberStatus status_api (it_email r) lst;
             st2 = st1\<lparr>checked := checked st1 @ [it_email r]\<rparr>;
             mem2 = (if noCache opt then mem st2 else (mem st2)(key \<mapsto> True))
         in
         case status of
           StatusFailed \<Rightarrow> st2\<lparr>toSubscribe := toSubscribe st2 @ [r]\<rparr>
         | Status normalized \<Rightarrow>
             if normalized = ''subscribed'' then
               st2\<lparr>mem := mem2,
                    fcache := (if noPersistentCache opt then fcache st2
                               else setEmail d (fcache st2) lst lowerEmail now),
                    c_alreadySubscribed := c_alreadySubscribed st2 + 1\<rparr>
             else if normalized = ''unsubscribed'' then
               st2\<lparr>mem := mem2, c_unsubscribed := c_unsubscribed st2 + 1\<rparr>
             else if normalized = ''bounced'' \<or> normalized = ''complained'' then
               st2\<lparr>mem := mem2, c_bouncedOrComplained := c_bouncedOrComplained st2 + 1\<rparr>
             else if normalized = ''not-in-list'' then
               st2\<lparr>c_notInList := c_notInList st2 + 1, toSubscribe := toSubscribe st2 @ [r]\<rparr>
             else
               st2\<lparr>c_unknownStatus := c_unknownStatus st2 + 1,
                    toSubscribe := toSubscribe st2 @ [r]\<rparr>))"

fun sync_loop ::
  "opts \<Rightarrow> string \<Rightarrow> disk \<Rightarrow> (string \<Rightarrow> string \<Rightarrow> string option) \<Rightarrow> string \<Rightarrow>
   sync_state \<Rightarrow> item list \<Rightarrow> sync_state" where
  "sync_loop opt lst d status_api now st [] = st"
| "sync_loop opt lst d status_api now st (r # rs) =
     sync_loop opt lst d status_api now (sync_step opt lst d status_api now st r) rs"

text \<open>The loop over the results that caches the successful subscriptions.\<close>

fun cache_successes ::
  "opts \<Rightarrow> string \<Rightarrow> disk \<Rightarrow> string \<Rightarrow> sync_result list \<Rightarrow> memcache \<times> FileCache \<times> nat \<Rightarrow>
   memcache \<times> FileCache \<times> nat" where
  "cache_successes opt lst d now [] acc = acc"
| "cache_successes opt lst d now (res # rest) (m, fc, successCount) =
     (if res_success res then
        cache_successes opt lst d now rest
          (if noCache opt then m else m(cacheKey lst (res_email res) \<mapsto> True),
           if noPersistentCache opt then fc
           else setEmail d fc lst (toLowerCase (res_email res)) now,
           successCount + 1)
      else cache_successes opt lst d now rest (m, fc, successCount))"

text \<open>The loop state before the first row: an empty queue and all counters at zero.\<close>

definition initial_state :: "memcache \<Rightarrow> FileCache \<Rightarrow> sync_state" where
  "initial_state m fc =
     \<lparr>mem = m, fcache = fc, toSubscribe = [], c_cached = 0, c_alreadySubscribed = 0,
      c_unsubscribed = 0, c_bouncedOrComplained = 0, c_notInList = 0, c_unknownStatus = 0,
      checked = []\<rparr>"

record report =
  rep_checked :: nat
  rep_attempted :: nat
  rep_subscribed :: nat
  rep_would_subscribe :: nat
  rep_skipped_cached :: nat
  rep_skipped_alreadySubscribed :: nat
  rep_skipped_unsubscribed :: nat
  rep_skipped_bouncedOrComplained :: nat
  rep_skipped_unknownStatus :: nat
  rep_subscriptionFailures :: nat
  rep_results :: "sync_result list"

record outcome =
  out_report :: report
  out_mem :: memcache
  out_fcache :: FileCache
  out_disk :: disk
  out_checked :: "string list"
  out_calls :: "item list"

text \<open>
  A run from the point where the list id \<open>lst\<close> is known and the candidate rows have been
  fetched: the persistent cache is set up, the in-memory cache of the fresh process is
  empty, the rows are checked, the queue is submitted, the successes are cached, the report
  is built and the persistent cache is saved. The result is \<open>None\<close> when \<open>bulkSubscribe\<close>
  does not return.
\<close>

definition run ::
  "opts \<Rightarrow> string \<Rightarrow> disk \<Rightarrow> (string \<Rightarrow> string \<Rightarrow> string option) \<Rightarrow>
   (string \<Rightarrow> item \<Rightarrow> string + string \<times> nat) \<Rightarrow> string \<Rightarrow> item list \<Rightarrow> outcome option" where
  "run opt lst d status_api subscribe_api now rows =
     (let (d1, fc1) =
            (if noPersistentCache opt then (d, new_FileCache)
             else (let fc = load d new_FileCache in
                   if refreshPersistent opt then clear d fc else (d, fc)));
          mem1 = (if clearCache opt then Map.empty else Map.empty);
          st = sync_loop opt lst d1 status_api now (initial_state mem1 fc1) rows
      in
      case bulkSubscribe subscribe_api lst (toSubscribe st) (dryRun opt) (batchSize opt) of
        None \<Rightarrow> None
      | Some (results, calls) \<Rightarrow>
          (let subscriptionFailures = length (filter (\<lambda>r. \<not> res_success r) results);
               (mem2, fc2, successCount) =
                  cache_successes opt lst d1 now results (mem st, fcache st, 0);
               rep = \<lparr>rep_checked = length rows, rep_attempted = length (toSubscribe st),
                      rep_subscribed = successCount,
                      rep_would_subscribe = length (toSubscribe st),
                      rep_skipped_cached = c_cached st,
                      rep_skipped_alreadySubscribed = c_alreadySubscribed st,
                      rep_skipped_unsubscribed = c_unsubscribed st,
                      rep_skipped_bouncedOrComplained = c_bouncedOrComplained st,
                      rep_skipped_unknownStatus = c_unknownStatus st,
                      rep_subscriptionFailures = subscriptionFailures,
                      rep_results = results\<rparr>;
               d2 = (if noPersistentCache opt then d1 else save fc2 d1);
               fc3 = (if noPersistentCache opt then fc2 else ensureList d2 fc2 lst)
           in Some \<lparr>out_report = rep, out_mem = mem2, out_fcache = fc3, out_disk = d2,
                     out_checked = checked st, out_calls = calls\<rparr>))"


text \<open>The options object as both scripts initialise it.\<close>

definition default_opts :: opts where
  "default_opts =
     \<lparr>dryRun = False, batchSize = Some 20, throttleMs = Some 250, noCache = False,
      clearCache = False, noPersistentCache = False, cacheFile = None,
      refreshPersistent = False, since = None, until = None, listId = None,
      orderStatus = ''any'', source = ''orders''\<rparr>"


text \<open>
  Two Sendy installations for concrete runs: one answers every status request with the
  same body, the other answers every subscribe request with the same text and code.
\<close>

definition status_always :: "string \<Rightarrow> string \<Rightarrow> string \<Rightarrow> string option" where
  "status_always body email lst = Some body"

definition subscribe_always :: "string \<Rightarrow> nat \<Rightarrow> string \<Rightarrow> item \<Rightarrow> string + string \<times> nat" where
  "subscribe_always text code lst it = Inr (text, code)"


text \<open>
  The success rule of the specification, in its words: the response text contains no
  known error phrase, and contains or equals a known truthy indicator (\<open>true\<close>,
  \<open>already subscribed\<close> or \<open>1\<close>). Phrases are looked for in the lower-cased text.
\<close>

definition spec_success :: "string \<Rightarrow> bool" where
  "spec_success text =
     ((\<forall>e \<in> set errorIndicators. \<not> sublist e (toLowerCase text)) \<and>
      (\<exists>si \<in> set [''true'', ''already subscribed'', ''1''].
          toLowerCase text = si \<or> sublist si (toLowerCase text)))"


section \<open>The argument loop and the date window\<close>

definition is_digit :: "char \<Rightarrow> bool" where
  "is_digit c = (c \<in> set ''0123456789'')"

text \<open>
  The test of the regular expression \<open>/^\d{4}-\d{2}-\d{2}$/\<close>: the text matches the
  pattern \<open>dddd-dd-dd\<close> character by character, where \<open>d\<close> stands for a digit.
\<close>

fun matches_pattern :: "string \<Rightarrow> string \<Rightarrow> bool" where
  "matches_pattern [] [] = True"
| "matches_pattern (p # ps) (c # cs) =
     ((if p = CHR ''d'' then is_digit c else c = p) \<and> matches_pattern ps cs)"
| "matches_pattern _ _ = False"

definition matches_ymd :: "string \<Rightarrow> bool" where
  "matches_ymd s = matches_pattern ''dddd-dd-dd'' s"

definition normalizeDate :: "string \<Rightarrow> string \<Rightarrow> string" where
  "normalizeDate val kind =
     (if \<not> truthy val then val
      else if js_includes val ''T'' then val
      else if matches_ymd val then
        (if kind = ''until'' then val @ ''T23:59:59Z'' else val @ ''T00:00:00Z'')
      else val)"

text \<open>
  \<open>a.split('=')[1]\<close> for an argument that contains \<open>=\<close>: the text between the first
  \<open>=\<close> and the second one, or the end.
\<close>

definition split_eq_1 :: "string \<Rightarrow> string" where
  "split_eq_1 a =
     takeWhile (\<lambda>c. c \<noteq> CHR ''='') (drop 1 (dropWhile (\<lambda>c. c \<noteq> CHR ''='') a))"

datatype script = Calendly | Shopify

text \<open>
  The part of an iteration that handles the forms with \<open>=\<close>: a sequence of independent
  \<open>if\<close> statements, none of which leaves the iteration.
\<close>

definition eq_forms :: "script \<Rightarrow> (string \<Rightarrow> int option) \<Rightarrow> string \<Rightarrow> opts \<Rightarrow> opts" where
  "eq_forms sc parseInt a o0 =
     (let o1 = (if prefix ''--since='' a then o0\<lparr>since := Some (split_eq_1 a)\<rparr> else o0);
          o2 = (if prefix ''--until='' a then o1\<lparr>until := Some (split_eq_1 a)\<rparr> else o1);
          o3 = (if prefix ''--from='' a
                then o2\<lparr>since := Some (normalizeDate (split_eq_1 a) ''since'')\<rparr> else o2);
          o4 = (if prefix ''--to='' a
                then o3\<lparr>until := Some (normalizeDate (split_eq_1 a) ''until'')\<rparr> else o3);
          o5 = (if prefix ''--list-id='' a then o4\<lparr>listId := Some (split_eq_1 a)\<rparr> else o4);
          o6 = (if prefix ''--batch-size='' a
                then o5\<lparr>batchSize := parseInt (split_eq_1 a)\<rparr> else o5);
          o7 = (if prefix ''--throttle-ms='' a
                then o6\<lparr>throttleMs := parseInt (split_eq_1 a)\<rparr> else o6);
          o8 = (if prefix ''--cache-file='' a then o7\<lparr>cacheFile := Some (split_eq_1 a)\<rparr> else o7);
          o9 = (if sc = Shopify \<and> prefix ''--order-status='' a
                then o8\<lparr>orderStatus := split_eq_1 a\<rparr> else o8)
      in (if sc = Shopify \<and> prefix ''--source='' a then o9\<lparr>source := split_eq_1 a\<rparr> else o9))"

definition flag_forms :: "string \<Rightarrow> opts \<Rightarrow> opts" where
  "flag_forms a o0 =
     (let o1 = (if a = ''--dry-run'' then o0\<lparr>dryRun := True\<rparr> else o0);
          o2 = (if a = ''--no-cache'' then o1\<lparr>noCache := True\<rparr> else o1);
          o3 = (if a = ''--clear-cache'' then o2\<lparr>clearCache := True\<rparr> else o2);
          o4 = (if a = ''--no-persistent-cache'' then o3\<lparr>noPersistentCache := True\<rparr> else o3)
      in (if a = ''--refresh-persistent'' then o4\<lparr>refreshPersistent := True\<rparr> else o4))"

text \<open>
  The argument loop of the sync scripts. The recursion is on the arguments still to be
  read: \<open>a\<close> is \<open>args[i]\<close>, and \<open>next\<close> is \<open>args[i+1]\<close> when it exists. A space-separated
  form applies when the next argument is truthy, and consumes it. \<open>parseInt\<close> is the
  built-in, a parameter here.
\<close>

fun parse_args :: "script \<Rightarrow> (string \<Rightarrow> int option) \<Rightarrow> string list \<Rightarrow> opts \<Rightarrow> opts" where
  "parse_args sc parseInt [] o0 = o0"
| "parse_args sc parseInt [a] o0 = flag_forms a (eq_forms sc parseInt a o0)"
| "parse_args sc parseInt (a # nxt # rest) o0 =
     (let o1 = eq_forms sc parseInt a o0 in
      if a = ''--since'' \<and> truthy nxt then parse_args sc parseInt rest (o1\<lparr>since := Some nxt\<rparr>)
      else if a = ''--until'' \<and> truthy nxt then parse_args sc parseInt rest (o1\<lparr>until := Some nxt\<rparr>)
      else if a = ''--from'' \<and> truthy nxt then
        parse_args sc parseInt rest (o1\<lparr>since := Some (normalizeDate nxt ''since'')\<rparr>)
      else if a = ''--to'' \<and> truthy nxt then
        parse_args sc parseInt rest (o1\<lparr>until := Some (normalizeDate nxt ''until'')\<rparr>)
      else if a = ''--list-id'' \<and> truthy nxt then
        parse_args sc parseInt rest (o1\<lparr>listId := Some nxt\<rparr>)
      else if a = ''--batch-size'' \<and> truthy nxt then
        parse_args sc parseInt rest (o1\<lparr>batchSize := parseInt nxt\<rparr>)
      else if a = ''--throttle-ms'' \<and> truthy nxt then
        parse_args sc parseInt rest (o1\<lparr>throttleMs := parseInt nxt\<rparr>)
      else if a = ''--cache-file'' \<and> truthy nxt then
        parse_args sc parseInt rest (o1\<lparr>cacheFile := Some nxt\<rparr>)
      else if sc = Shopify \<and> a = ''--order-status'' \<and> truthy nxt then
        parse_args sc parseInt rest (o1\<lparr>orderStatus := nxt\<rparr>)
      else if sc = Shopify \<and> a = ''--source'' \<and> truthy nxt then
        parse_args sc parseInt rest (o1\<lparr>source := nxt\<rparr>)
      else parse_args sc parseInt (nxt # rest) (flag_forms a o1))"


section \<open>The webhook handler\<close>

text \<open>
  \<open>hmac secret payload\<close> is the base64 digest of the HMAC-SHA256 of the payload, a
  parameter. \<open>crypto.timingSafeEqual\<close> throws a \<open>RangeError\<close> when its two buffers differ in
  byte length. The secret is the environment variable, \<open>None\<close> when it is not set.
\<close>

datatype js_error = RangeError | TypeError | OtherError

definition verifyWebhookSignature ::
  "(string \<Rightarrow> string \<Rightarrow> string) \<Rightarrow> string option \<Rightarrow> string \<Rightarrow> string \<Rightarrow> js_error + bool" where
  "verifyWebhookSignature hmac secret payload signature =
     (case secret of
        None \<Rightarrow> Inr True
      | Some sec \<Rightarrow>
          if \<not> truthy sec then Inr True
          else (let expectedSignature = hmac sec payload in
                if length signature \<noteq> length expectedSignature then Inl RangeError
                else Inr (signature = expectedSignature)))"

record wh_invitee =
  wh_email :: "string option"
  wh_name :: string
  wh_created_at :: string

record wh_request =
  rq_signature :: "string option"
  rq_body_json :: string
  rq_event :: string
  rq_payload :: wh_invitee

text \<open>
  \<open>processNewInvitee\<close> catches every exception itself. \<open>add_api email name\<close> is the outcome
  of \<open>sendyService.addSubscriber\<close>: \<open>None\<close> when it throws, otherwise its success flag. The
  result is the in-memory cache and the trace of the addresses submitted.
\<close>

definition processNewInvitee ::
  "(string \<Rightarrow> string \<Rightarrow> bool option) \<Rightarrow> memcache \<Rightarrow> wh_invitee \<Rightarrow> memcache \<times> string list" where
  "processNewInvitee add_api m invitee =
     (case wh_email invitee of
        None \<Rightarrow> (m, [])
      | Some email \<Rightarrow>
          if \<not> truthy email then (m, [])
          else (let key = ''processed:'' @ email @ '':'' @ wh_created_at invitee in
                if m key \<noteq> None then (m, [])
                else (case add_api email (wh_name invitee) of
                        None \<Rightarrow> (m, [email])
                      | Some ok \<Rightarrow> (if ok then m(key \<mapsto> True) else m, [email]))))"

record wh_response =
  rs_status :: nat
  rs_verified :: bool
  rs_mem :: memcache
  rs_submitted :: "string list"

text \<open>
  \<open>handleCalendlyWebhook\<close>. \<open>rs_verified\<close> records whether \<open>verifyWebhookSignature\<close> was
  called. An exception of the verification is caught by the handler's \<open>try\<close> and answered
  with 500.
\<close>

definition handleCalendlyWebhook ::
  "(string \<Rightarrow> string \<Rightarrow> string) \<Rightarrow> string option \<Rightarrow> (string \<Rightarrow> string \<Rightarrow> bool option) \<Rightarrow>
   memcache \<Rightarrow> wh_request \<Rightarrow> wh_response" where
  "handleCalendlyWebhook hmac secret add_api m req =
     (let signature = rq_signature req;
          payload = rq_body_json req;
          checks = (case signature of None \<Rightarrow> False | Some sg \<Rightarrow> truthy sg);
          verdict = (case signature of
                       None \<Rightarrow> Inr True
                     | Some sg \<Rightarrow>
                         if truthy sg then verifyWebhookSignature hmac secret payload sg
                         else Inr True)
      in case verdict of
           Inl err \<Rightarrow> \<lparr>rs_status = 500, rs_verified = checks, rs_mem = m, rs_submitted = []\<rparr>
         | Inr ok \<Rightarrow>
             if \<not> ok then \<lparr>rs_status = 401, rs_verified = checks, rs_mem = m, rs_submitted = []\<rparr>
             else if rq_event req = ''invitee.created'' then
               (let (m', sent) = processNewInvitee add_api m (rq_payload req) in
                \<lparr>rs_status = 200, rs_verified = checks, rs_mem = m', rs_submitted = sent\<rparr>)
             else \<lparr>rs_status = 200, rs_verified = checks, rs_mem = m, rs_submitted = []\<rparr>)"


text \<open>
  For concrete requests: a digest function whose value always has the 44 characters of
  a base64 SHA-256 digest, and a subscriber service that accepts everybody.
\<close>

definition digest44 :: "string \<Rightarrow> string \<Rightarrow> string" where
  "digest44 sec payload = replicate 44 (CHR ''A'')"

definition add_always :: "string \<Rightarrow> string \<Rightarrow> bool option" where
  "add_always email name = Some True"


section \<open>Paginated fetches: \<open>clients/shopifyClient.js\<close>, \<open>clients/calendlyClient.js\<close>\<close>

text \<open>
  A provider is a function from a request to the outcome of \<open>_requestWithRetry\<close>: an
  error, or the response. For Shopify a request names the next-page URL (\<open>None\<close> for the
  first page), and a response holds \<open>data.orders\<close> (\<open>None\<close> when absent) and the URL that
  \<open>_parseNextPageUrl\<close> reads from the \<open>Link\<close> header. The result of the loop is the list
  of orders, the number of requests made and whether the warning about the maximum was
  logged.
\<close>

record 'o shop_page =
  sp_orders :: "'o list option"
  sp_next :: "string option"

definition maxAttempts :: nat where
  "maxAttempts = 50"

definition truthy_opt :: "string option \<Rightarrow> bool" where
  "truthy_opt v = (case v of None \<Rightarrow> False | Some s \<Rightarrow> truthy s)"

function listOrders_loop ::
  "(string option \<Rightarrow> js_error + 'o shop_page) \<Rightarrow> string option \<Rightarrow> nat \<Rightarrow> 'o list \<Rightarrow>
   js_error + 'o list \<times> nat \<times> bool" where
  "listOrders_loop fetch nextPageUrl attempts orders =
     (case fetch (if truthy_opt nextPageUrl then nextPageUrl else None) of
        Inl err \<Rightarrow> Inl err
      | Inr res \<Rightarrow>
          (if maxAttempts \<le> attempts + 1 then
             Inr (case sp_orders res of None \<Rightarrow> orders | Some batch \<Rightarrow> orders @ batch,
                  attempts + 1, True)
           else if truthy_opt (sp_next res) then
             listOrders_loop fetch (sp_next res) (attempts + 1)
               (case sp_orders res of None \<Rightarrow> orders | Some batch \<Rightarrow> orders @ batch)
           else
             Inr (case sp_orders res of None \<Rightarrow> orders | Some batch \<Rightarrow> orders @ batch,
                  attempts + 1, False)))"
  by pat_completeness auto
termination
  by (relation "measure (\<lambda>(fetch, nextPageUrl, attempts, orders). maxAttempts - attempts)") auto

definition listOrders ::
  "(string option \<Rightarrow> js_error + 'o shop_page) \<Rightarrow> js_error + 'o list \<times> nat \<times> bool" where
  "listOrders fetch = listOrders_loop fetch None 0 []"

text \<open>
  For Calendly the body of a response holds \<open>collection\<close> and, under \<open>pagination\<close>, the
  strings \<open>next_page\<close> and \<open>next_page_token\<close> (\<open>None\<close> when absent or not a string). A request
  is for a next-page URL, or for the first path with an optional page token.
\<close>

record 'e cal_page =
  cp_collection :: "'e list option"
  cp_next_page :: "string option"
  cp_next_page_token :: "string option"

datatype cal_request = ByParams "string option" | ByUrl string

definition trimmed_or_null :: "string option \<Rightarrow> string option" where
  "trimmed_or_null v =
     (case v of None \<Rightarrow> None | Some s \<Rightarrow> (if truthy (trim s) then Some (trim s) else None))"

text \<open>
  \<open>_getNextPageInfo(data)\<close>. The argument is \<open>None\<close> when \<open>data\<close> is an object that has no
  \<open>pagination\<close> property.
\<close>

definition getNextPageInfo :: "'e cal_page option \<Rightarrow> string option \<times> string option" where
  "getNextPageInfo data =
     (case data of
        None \<Rightarrow> (None, None)
      | Some pg \<Rightarrow> (trimmed_or_null (cp_next_page pg), trimmed_or_null (cp_next_page_token pg)))"

text \<open>
  The pagination loop of \<open>listScheduledEvents\<close> for one scope. In the branch that follows
  a next-page URL, \<open>data\<close> is the body of the response (\<open>res.data\<close>). In the other branch the
  source assigns the response object itself to \<open>data\<close>, and a response object has neither a
  \<open>collection\<close> nor a \<open>pagination\<close> property: there \<open>data\<close> shows nothing of the body. The
  result is the events, the number of requests made and whether the warning about a
  repeated token was logged.
\<close>

partial_function (option) scheduledEvents_loop ::
  "(cal_request \<Rightarrow> js_error + 'e cal_page) \<Rightarrow> string option \<Rightarrow> string option \<Rightarrow> string list \<Rightarrow>
   'e list \<Rightarrow> nat \<Rightarrow> (js_error + 'e list \<times> nat \<times> bool) option" where
  "scheduledEvents_loop fetch nextPageUrl pageToken seenTokens events n =
     (case (case nextPageUrl of
              Some url \<Rightarrow> (case fetch (ByUrl url) of Inl err \<Rightarrow> Inl err | Inr body \<Rightarrow> Inr (Some body))
            | None \<Rightarrow> (case fetch (ByParams pageToken) of Inl err \<Rightarrow> Inl err | Inr body \<Rightarrow> Inr None))
      of
        Inl err \<Rightarrow> Some (Inl err)
      | Inr data \<Rightarrow>
          (if fst (getNextPageInfo data) = None \<and> snd (getNextPageInfo data) = None then
             Some (Inr (case data of None \<Rightarrow> events
                        | Some pg \<Rightarrow> (case cp_collection pg of None \<Rightarrow> events
                                     | Some batch \<Rightarrow> events @ batch), n + 1, False))
           else if fst (getNextPageInfo data) = None \<and> snd (getNextPageInfo data) = Some ''null'' then
             Some (Inr (case data of None \<Rightarrow> events
                        | Some pg \<Rightarrow> (case cp_collection pg of None \<Rightarrow> events
                                     | Some batch \<Rightarrow> events @ batch), n + 1, False))
           else if fst (getNextPageInfo data) \<noteq> None then
             scheduledEvents_loop fetch (fst (getNextPageInfo data)) None seenTokens
               (case data of None \<Rightarrow> events
                | Some pg \<Rightarrow> (case cp_collection pg of None \<Rightarrow> events
                             | Some batch \<Rightarrow> events @ batch)) (n + 1)
           else if the (snd (getNextPageInfo data)) \<in> set seenTokens then
             Some (Inr (case data of None \<Rightarrow> events
                        | Some pg \<Rightarrow> (case cp_collection pg of None \<Rightarrow> events
                                     | Some batch \<Rightarrow> events @ batch), n + 1, True))
           else
             scheduledEvents_loop fetch None (snd (getNextPageInfo data))
               (the (snd (getNextPageInfo data)) # seenTokens)
               (case data of None \<Rightarrow> events
                | Some pg \<Rightarrow> (case cp_collection pg of None \<Rightarrow> events
                             | Some batch \<Rightarrow> events @ batch)) (n + 1)))"

definition scheduledEvents_pages ::
  "(cal_request \<Rightarrow> js_error + 'e cal_page) \<Rightarrow> (js_error + 'e list \<times> nat \<times> bool) option" where
  "scheduledEvents_pages fetch = scheduledEvents_loop fetch None None [] [] 0"

text \<open>
  \<open>listInviteesForEvent\<close>: the loop follows \<open>next_page_token\<close> as long as it is truthy; an
  error ends it with the invitees collected so far. The result is the invitees and the
  number of requests made.
\<close>

partial_function (option) invitees_loop ::
  "(string option \<Rightarrow> js_error + 'e cal_page) \<Rightarrow> string option \<Rightarrow> 'e list \<Rightarrow> nat \<Rightarrow>
   ('e list \<times> nat) option" where
  "invitees_loop fetch pageToken invitees n =
     (case fetch pageToken of
        Inl err \<Rightarrow> Some (invitees, n + 1)
      | Inr res \<Rightarrow>
          (if truthy_opt (cp_next_page_token res) then
             invitees_loop fetch (cp_next_page_token res)
               (case cp_collection res of None \<Rightarrow> invitees | Some batch \<Rightarrow> invitees @ batch)
               (n + 1)
           else
             Some (case cp_collection res of None \<Rightarrow> invitees | Some batch \<Rightarrow> invitees @ batch,
                   n + 1)))"

definition listInviteesForEvent ::
  "(string option \<Rightarrow> js_error + 'e cal_page) \<Rightarrow> string \<Rightarrow> ('e list \<times> nat) option" where
  "listInviteesForEvent fetch eventUuid =
     (if \<not> truthy eventUuid then Some ([], 0) else invitees_loop fetch None [] 0)"

text \<open>Providers that announce a further page on every page.\<close>

definition endless_shopify :: "string option \<Rightarrow> js_error + nat shop_page" where
  "endless_shopify rq =
     Inr \<lparr>sp_orders = Some [1], sp_next = Some ''https://shop.example/orders.json?page_info=x''\<rparr>"

definition endless_calendly :: "'r \<Rightarrow> js_error + nat cal_page" where
  "endless_calendly rq =
     Inr \<lparr>cp_collection = Some [1],
          cp_next_page = Some ''https://api.calendly.com/scheduled_events?page_token=x'',
          cp_next_page_token = Some ''x''\<rparr>"


section \<open>Candidate records: normalisation and deduplication\<close>

text \<open>
  A JavaScript \<open>Map\<close> keeps its keys in insertion order: it is modelled as an association
  list with \<open>map_of\<close> for \<open>get\<close> and \<open>map_set\<close> for \<open>set\<close>, which replaces the value of a
  key in place or appends a new key. A \<open>created_at\<close> value is modelled by the epoch
  milliseconds \<open>new Date\<close> reads from it, \<open>None\<close> when the field is missing; text that
  \<open>new Date\<close> cannot parse is outside the model. \<open>date_or d t\<close> is \<open>new Date(t || d)\<close>.
\<close>

fun map_set :: "('k \<times> 'v) list \<Rightarrow> 'k \<Rightarrow> 'v \<Rightarrow> ('k \<times> 'v) list" where
  "map_set [] k v = [(k, v)]"
| "map_set ((k', v') # kvs) k v =
     (if k' = k then (k, v) # kvs else (k', v') # map_set kvs k v)"

definition date_or :: "int \<Rightarrow> int option \<Rightarrow> int" where
  "date_or d t = (case t of None \<Rightarrow> d | Some ms \<Rightarrow> ms)"

text \<open>
  The statement both deduplications share,
  \<open>if (!cur || created > new Date(cur.created_at || 0)) map.set(key, value)\<close>;
  \<open>stored\<close> reads the date of the record kept so far.
\<close>

definition keep_latest ::
  "('v \<Rightarrow> int) \<Rightarrow> (string \<times> 'v) list \<Rightarrow> string \<Rightarrow> int \<Rightarrow> 'v \<Rightarrow> (string \<times> 'v) list" where
  "keep_latest stored m k created v =
     (if (case map_of m k of None \<Rightarrow> True | Some cur \<Rightarrow> stored cur < created)
      then map_set m k v else m)"

record invitee =
  inv_email :: "string option"
  inv_name :: string
  inv_created_at :: "int option"
  inv_event_name :: "string option"

record row =
  row_email :: string
  row_name :: string
  row_created_at :: "int option"
  row_event :: "string option"

text \<open>
  The deduplication of the Calendly script. \<open>now\<close> is \<open>Date.now()\<close>, which stands in for
  a missing \<open>created_at\<close> in the comparison.
\<close>

definition dedupe_step :: "int \<Rightarrow> (string \<times> row) list \<Rightarrow> invitee \<Rightarrow> (string \<times> row) list" where
  "dedupe_step now m iv =
     (case inv_email iv of
        None \<Rightarrow> m
      | Some e \<Rightarrow>
          if \<not> truthy e then m
          else (let email = trim (toLowerCase e) in
                keep_latest (\<lambda>cur. date_or 0 (row_created_at cur)) m email
                  (date_or now (inv_created_at iv))
                  \<lparr>row_email = email, row_name = inv_name iv,
                   row_created_at = inv_created_at iv, row_event = inv_event_name iv\<rparr>))"

fun dedupe_loop :: "int \<Rightarrow> (string \<times> row) list \<Rightarrow> invitee list \<Rightarrow> (string \<times> row) list" where
  "dedupe_loop now m [] = m"
| "dedupe_loop now m (iv # ivs) = dedupe_loop now (dedupe_step now m iv) ivs"

definition candidate_rows :: "int \<Rightarrow> invitee list \<Rightarrow> row list" where
  "candidate_rows now invitees =
     sort_key (\<lambda>r. date_or 0 (row_created_at r)) (map snd (dedupe_loop now [] invitees))"

definition row_item :: "row \<Rightarrow> item" where
  "row_item r = \<lparr>it_email = row_email r, it_name = row_name r\<rparr>"

text \<open>
  \<open>ShopifyClient.extractEmailsFromOrders\<close>. The address is the order's, else the
  customer's, else the billing address's; an order whose normalised address is empty is
  skipped.
\<close>

record person =
  p_email :: "string option"
  p_first_name :: "string option"
  p_last_name :: "string option"

record order =
  o_email :: "string option"
  o_customer :: "person option"
  o_billing_address :: "person option"
  o_created_at :: "int option"
  o_id :: nat
  o_order_number :: "string option"
  o_name :: "string option"
  o_total_price :: "string option"

record customer =
  cu_email :: string
  cu_name :: string
  cu_created_at :: "int option"
  cu_order_id :: nat
  cu_order_number :: "string option"
  cu_order_value :: string

definition order_email :: "order \<Rightarrow> string option" where
  "order_email od =
     (if truthy_opt (o_email od) then map_option (\<lambda>e. trim (toLowerCase e)) (o_email od)
      else if (case o_customer od of None \<Rightarrow> False | Some c \<Rightarrow> truthy_opt (p_email c)) then
        (case o_customer od of None \<Rightarrow> None
         | Some c \<Rightarrow> map_option (\<lambda>e. trim (toLowerCase e)) (p_email c))
      else if (case o_billing_address od of None \<Rightarrow> False | Some b \<Rightarrow> truthy_opt (p_email b)) then
        (case o_billing_address od of None \<Rightarrow> None
         | Some b \<Rightarrow> map_option (\<lambda>e. trim (toLowerCase e)) (p_email b))
      else None)"

text \<open>\<open>[first, last].filter(Boolean).join(' ')\<close>.\<close>

definition join_names :: "person \<Rightarrow> string" where
  "join_names p =
     (case filter truthy_opt [p_first_name p, p_last_name p] of
        [] \<Rightarrow> []
      | [a] \<Rightarrow> the a
      | a # b # _ \<Rightarrow> the a @ '' '' @ the b)"

definition order_name :: "order \<Rightarrow> string" where
  "order_name od =
     (case o_customer od of
        Some c \<Rightarrow> join_names c
      | None \<Rightarrow> (case o_billing_address od of Some b \<Rightarrow> join_names b | None \<Rightarrow> []))"

definition order_customer :: "string \<Rightarrow> order \<Rightarrow> customer" where
  "order_customer email od =
     \<lparr>cu_email = email,
      cu_name = (if truthy (trim (order_name od)) then trim (order_name od)
                 else takeWhile (\<lambda>c. c \<noteq> CHR ''@'') email),
      cu_created_at = o_created_at od, cu_order_id = o_id od,
      cu_order_number = (if truthy_opt (o_order_number od) then o_order_number od
                         else o_name od),
      cu_order_value = (case o_total_price od of
                          None \<Rightarrow> ''0.00''
                        | Some v \<Rightarrow> (if truthy v then v else ''0.00''))\<rparr>"

definition extract_step :: "(string \<times> customer) list \<Rightarrow> order \<Rightarrow> (string \<times> customer) list" where
  "extract_step m od =
     (case order_email od of
        None \<Rightarrow> m
      | Some email \<Rightarrow>
          if \<not> truthy email then m
          else keep_latest (\<lambda>cur. date_or 0 (cu_created_at cur)) m email
                 (date_or 0 (o_created_at od)) (order_customer email od))"

fun extract_loop :: "(string \<times> customer) list \<Rightarrow> order list \<Rightarrow> (string \<times> customer) list" where
  "extract_loop m [] = m"
| "extract_loop m (od # ods) = extract_loop (extract_step m od) ods"

definition extractEmailsFromOrders :: "order list \<Rightarrow> customer list" where
  "extractEmailsFromOrders orders =
     sort_key (\<lambda>c. date_or 0 (cu_created_at c)) (map snd (extract_loop [] orders))"

definition customer_item :: "customer \<Rightarrow> item" where
  "customer_item c = \<lparr>it_email = cu_email c, it_name = cu_name c\<rparr>"


section \<open>Properties of the persistent cache\<close>

lemma load_loaded: "fc_loaded (load d fc)"
  by (simp add: load_def split: option.splits file_content.splits)

lemma load_idem: "fc_loaded fc \<Longrightarrow> load d fc = fc"
  by (simp add: load_def)

lemma ensureList_loaded: "fc_loaded (ensureList d fc l)"
  by (simp add: ensureList_def Let_def load_loaded split: option.splits)

text \<open>
  Claim C8. When the cache file exists and its contents do not parse, \<open>load\<close> on a cache
  that has not been loaded yet returns normally with the empty state \<open>{ lists: {} }\<close> and
  the loaded mark set, exactly the state reached when there is no file at all; a lookup
  on that state misses, and a lookup after \<open>setEmail\<close> finds the address stored (and no other).
\<close>

theorem load_unparsable_starts_empty:
  "\<not> fc_loaded fc \<Longrightarrow> content d = Some Unparsable \<Longrightarrow>
     load d fc = \<lparr>fc_data = Map.empty, fc_loaded = True\<rparr>
   \<and> load d fc = load (d\<lparr>content := None\<rparr>) new_FileCache
   \<and> snd (hasEmail d (load d fc) l e) = False
   \<and> snd (hasEmail d (setEmail d (load d fc) l e w) l e') =
        (toLowerCase e' = toLowerCase e \<and> truthy w)"
  by (simp add: load_def new_FileCache_def hasEmail_def setEmail_def ensureList_def Let_def)

theorem load_unparsable_starts_empty_witness:
  "\<not> fc_loaded new_FileCache
   \<and> content \<lparr>content = Some Unparsable, writable = True\<rparr> = Some Unparsable
   \<and> load \<lparr>content = Some Unparsable, writable = True\<rparr> new_FileCache
       = \<lparr>fc_data = Map.empty, fc_loaded = True\<rparr>
   \<and> snd (hasEmail \<lparr>content = Some Unparsable, writable = True\<rparr>
         (load \<lparr>content = Some Unparsable, writable = True\<rparr> new_FileCache)
         ''L1'' ''A@Example.com'') = False
   \<and> snd (hasEmail \<lparr>content = Some Unparsable, writable = True\<rparr>
         (setEmail \<lparr>content = Some Unparsable, writable = True\<rparr>
            (load \<lparr>content = Some Unparsable, writable = True\<rparr> new_FileCache)
            ''L1'' ''A@Example.com'' ''2025-11-01T00:00:00.000Z'')
         ''L1'' ''a@example.com'') = True"
proof -
  let ?d = "\<lparr>content = Some Unparsable, writable = True\<rparr>"
  have h1: "\<not> fc_loaded new_FileCache"
    by (simp add: new_FileCache_def)
  have h2: "content ?d = Some Unparsable"
    by simp
  have low: "toLowerCase ''a@example.com'' = toLowerCase ''A@Example.com''"
    by code_simp
  note inst = load_unparsable_starts_empty [OF h1 h2, of "''L1''" "''A@Example.com''"
      "''2025-11-01T00:00:00.000Z''" "''a@example.com''"]
  have c1: "load ?d new_FileCache = \<lparr>fc_data = Map.empty, fc_loaded = True\<rparr>"
    using inst by blast
  have c2: "snd (hasEmail ?d (load ?d new_FileCache) ''L1'' ''A@Example.com'') = False"
    using inst by blast
  have "snd (hasEmail ?d (setEmail ?d (load ?d new_FileCache) ''L1'' ''A@Example.com''
            ''2025-11-01T00:00:00.000Z'') ''L1'' ''a@example.com'')
        = (toLowerCase ''a@example.com'' = toLowerCase ''A@Example.com''
           \<and> truthy ''2025-11-01T00:00:00.000Z'')"
    using inst by blast
  then have c3: "snd (hasEmail ?d (setEmail ?d (load ?d new_FileCache) ''L1'' ''A@Example.com''
            ''2025-11-01T00:00:00.000Z'') ''L1'' ''a@example.com'') = True"
    using low by (simp add: truthy_def)
  show ?thesis
    using h1 h2 c1 c2 c3 by blast
qed


section \<open>Properties of the sync loop and of bulk subscribe\<close>

lemma lower_char_idem: "lower_char (lower_char c) = lower_char c"
  unfolding lower_char_def Let_def by auto

lemma toLowerCase_idem: "toLowerCase (toLowerCase s) = toLowerCase s"
  by (simp add: toLowerCase_def lower_char_idem)

lemma char_eq_char_of: "(c = char_of (n::nat)) = (take_bit 8 n = of_char c)"
  using char_of_eq_iff [of n c] by auto

lemmas str_eval = toLowerCase_def lower_char_def char_of_eq_iff char_eq_char_of trim_def
  is_space_def

lemma hasEmail_loaded:
  "fc_loaded fc \<Longrightarrow> snd (hasEmail d fc l e) = persistent_hit (fc_data fc) l e"
  by (simp add: hasEmail_def ensureList_def load_def Let_def persistent_hit_def split: option.splits)

lemma hasEmail_fst_loaded: "fc_loaded (fst (hasEmail d fc l e))"
  by (simp add: hasEmail_def ensureList_def Let_def load_loaded split: option.splits)

lemma hasEmail_fst_hit:
  "fc_loaded fc \<Longrightarrow>
   persistent_hit (fc_data (fst (hasEmail d fc l e))) l' e' = persistent_hit (fc_data fc) l' e'"
  by (simp add: hasEmail_def ensureList_def load_def Let_def persistent_hit_def split: option.splits)

lemma setEmail_loaded: "fc_loaded (setEmail d fc l e w)"
  by (simp add: setEmail_def ensureList_def Let_def load_loaded split: option.splits)

lemma setEmail_hit:
  "fc_loaded fc \<Longrightarrow>
   persistent_hit (fc_data (setEmail d fc l e w)) l' e' =
     (if l' = l \<and> toLowerCase e' = toLowerCase e then truthy w
      else persistent_hit (fc_data fc) l' e')"
  by (auto simp add: setEmail_def ensureList_def load_def Let_def persistent_hit_def split: option.splits)



lemma persistent_hit_lower [simp]:
  "persistent_hit dat l (toLowerCase e) = persistent_hit dat l e"
  by (simp add: persistent_hit_def toLowerCase_idem split: option.splits)

lemma step_mem_hit:
  "\<not> noCache opt \<Longrightarrow> cache_get (mem st) (cacheKey lst (it_email r)) \<Longrightarrow>
   toSubscribe (sync_step opt lst d api now st r) = toSubscribe st
   \<and> checked (sync_step opt lst d api now st r) = checked st
   \<and> c_cached (sync_step opt lst d api now st r) = c_cached st + 1"
  by (simp add: sync_step_def Let_def split_beta)

lemma step_persistent_hit:
  "\<not> noPersistentCache opt \<Longrightarrow> fc_loaded (fcache st) \<Longrightarrow>
   persistent_hit (fc_data (fcache st)) lst (it_email r) \<Longrightarrow>
   toSubscribe (sync_step opt lst d api now st r) = toSubscribe st
   \<and> checked (sync_step opt lst d api now st r) = checked st"
  by (simp add: sync_step_def Let_def split_beta hasEmail_loaded)

lemma step_persistent_hit_count:
  "\<not> (\<not> noCache opt \<and> cache_get (mem st) (cacheKey lst (it_email r))) \<Longrightarrow>
   \<not> noPersistentCache opt \<Longrightarrow> fc_loaded (fcache st) \<Longrightarrow>
   persistent_hit (fc_data (fcache st)) lst (it_email r) \<Longrightarrow>
   c_alreadySubscribed (sync_step opt lst d api now st r) = c_alreadySubscribed st + 1"
  by (simp add: sync_step_def Let_def split_beta hasEmail_loaded)


lemma step_loaded:
  "noPersistentCache opt \<or> fc_loaded (fcache st) \<Longrightarrow>
   noPersistentCache opt \<or> fc_loaded (fcache (sync_step opt lst d api now st r))"
  by (cases "getSubscriberStatus api (it_email r) lst")
     (simp_all add: sync_step_def Let_def split_beta hasEmail_fst_loaded setEmail_loaded)


lemma persistent_hit_cong:
  "toLowerCase e = toLowerCase e' \<Longrightarrow> persistent_hit dat l e = persistent_hit dat l e'"
  by (simp add: persistent_hit_def split: option.splits)

lemma step_fcache_cases:
  "fcache (sync_step opt lst d api now st r) = fcache st
   \<or> fcache (sync_step opt lst d api now st r)
       = fst (hasEmail d (fcache st) lst (toLowerCase (it_email r)))
   \<or> (\<not> snd (hasEmail d (fcache st) lst (toLowerCase (it_email r)))
       \<and> fcache (sync_step opt lst d api now st r)
           = setEmail d (fst (hasEmail d (fcache st) lst (toLowerCase (it_email r))))
               lst (toLowerCase (it_email r)) now)"
  by (cases "getSubscriberStatus api (it_email r) lst")
     (simp_all add: sync_step_def Let_def split_beta)

lemma step_hit_mono:
  assumes "fc_loaded (fcache st)" and "persistent_hit (fc_data (fcache st)) l e"
  shows "persistent_hit (fc_data (fcache (sync_step opt lst d api now st r))) l e"
proof -
  let ?h = "hasEmail d (fcache st) lst (toLowerCase (it_email r))"
  have h1: "persistent_hit (fc_data (fst ?h)) l e"
    using assms by (simp add: hasEmail_fst_hit)
  have h2: "\<not> snd ?h \<Longrightarrow> persistent_hit (fc_data (setEmail d (fst ?h) lst
               (toLowerCase (it_email r)) now)) l e"
  proof -
    assume miss: "\<not> snd ?h"
    then have "\<not> persistent_hit (fc_data (fcache st)) lst (it_email r)"
      using assms(1) by (simp add: hasEmail_loaded)
    then have "\<not> (l = lst \<and> toLowerCase e = toLowerCase (it_email r))"
      using assms(2) persistent_hit_cong [of e "it_email r" "fc_data (fcache st)" lst] by auto
    then show ?thesis
      using h1 by (auto simp add: setEmail_hit hasEmail_fst_loaded toLowerCase_idem)
  qed
  from step_fcache_cases [of opt lst d api now st r] show ?thesis
    using assms(2) h1 h2 by auto
qed

lemma step_queue:
  "set (toSubscribe (sync_step opt lst d api now st r)) \<subseteq> insert r (set (toSubscribe st))"
  by (cases "getSubscriberStatus api (it_email r) lst")
     (auto simp add: sync_step_def Let_def split_beta)

lemma step_queue_new:
  "\<not> noPersistentCache opt \<Longrightarrow> fc_loaded (fcache st) \<Longrightarrow>
   x \<in> set (toSubscribe (sync_step opt lst d api now st r)) \<Longrightarrow>
   x \<in> set (toSubscribe st) \<or> \<not> persistent_hit (fc_data (fcache st)) lst (it_email x)"
  using step_persistent_hit [of opt st lst r d api now] step_queue [of opt lst d api now st r]
  by auto


lemma loop_queue_no_hit:
  "\<not> noPersistentCache opt \<Longrightarrow> fc_loaded (fcache st) \<Longrightarrow>
   x \<in> set (toSubscribe (sync_loop opt lst d api now st rows)) \<Longrightarrow>
   x \<in> set (toSubscribe st) \<or> \<not> persistent_hit (fc_data (fcache st)) lst (it_email x)"
proof (induction rows arbitrary: st)
  case Nil
  then show ?case by simp
next
  case (Cons r rows)
  let ?st = "sync_step opt lst d api now st r"
  have ld: "fc_loaded (fcache ?st)"
    using step_loaded [of opt st lst d api now r] Cons.prems by simp
  from Cons.IH [OF Cons.prems(1) ld] Cons.prems(3)
  have "x \<in> set (toSubscribe ?st) \<or> \<not> persistent_hit (fc_data (fcache ?st)) lst (it_email x)"
    by simp
  then show ?case
  proof
    assume "x \<in> set (toSubscribe ?st)"
    then show ?thesis using step_queue_new [OF Cons.prems(1,2)] by blast
  next
    assume "\<not> persistent_hit (fc_data (fcache ?st)) lst (it_email x)"
    then show ?thesis using step_hit_mono [OF Cons.prems(2)] by blast
  qed
qed



lemma bulk_batch_calls:
  "snd (bulk_batch api lst dry its acc) = snd acc @ (if dry then [] else its)"
  by (induction api lst dry its acc rule: bulk_batch.induct) (simp_all add: Let_def)

lemma bulk_batch_append:
  "bulk_batch api lst dry (xs @ ys) acc = bulk_batch api lst dry ys (bulk_batch api lst dry xs acc)"
  by (induction api lst dry xs acc rule: bulk_batch.induct) (simp_all add: Let_def)

lemma bulk_batch_results_dry:
  "fst (bulk_batch api lst True its acc) =
     fst acc @ map (\<lambda>it. \<lparr>res_email = it_email it, res_success = False, res_dryRun = True,
                          res_message = ''dry-run'', res_statusCode = None\<rparr>) its"
  by (induction api lst True its acc rule: bulk_batch.induct) simp_all

lemma js_slice_batch:
  "0 \<le> i \<Longrightarrow> i < int (length xs) \<Longrightarrow> 1 \<le> b \<Longrightarrow>
   js_slice xs (Some i) (js_add (Some i) (Some b)) = take (nat b) (drop (nat i) xs)"
  by (auto simp add: js_slice_def js_add_def js_rel_index_def Let_def min_def)

lemma bulk_loop_returns:
  "1 \<le> b \<Longrightarrow> 0 \<le> i \<Longrightarrow>
   bulk_loop api lst dry (Some b) items (Some i) acc
     = Some (bulk_batch api lst dry (drop (nat i) items) acc)"
proof (induction "length items - nat i" arbitrary: i acc rule: less_induct)
  case less
  show ?case
  proof (cases "i < int (length items)")
    case False
    then show ?thesis
      using less.prems by (subst bulk_loop.simps) simp
  next
    case True
    have sl: "js_slice items (Some i) (js_add (Some i) (Some b)) = take (nat b) (drop (nat i) items)"
      using js_slice_batch [OF less.prems(2) True less.prems(1)] .
    have dec: "length items - nat (i + b) < length items - nat i"
      using True less.prems by linarith
    have nn: "0 \<le> i + b" using less.prems by simp
    have step: "bulk_loop api lst dry (Some b) items (Some i) acc
        = bulk_loop api lst dry (Some b) items (Some (i + b))
            (bulk_batch api lst dry (take (nat b) (drop (nat i) items)) acc)"
      using True sl by (subst bulk_loop.simps) (simp add: js_add_def)
    have dr: "drop (nat (i + b)) items = drop (nat b) (drop (nat i) items)"
      using less.prems by (simp add: nat_add_distrib add.commute)
    have sp: "take (nat b) (drop (nat i) items) @ drop (nat (i + b)) items = drop (nat i) items"
      unfolding dr by (rule append_take_drop_id)
    have "bulk_batch api lst dry (drop (nat i) items) acc
        = bulk_batch api lst dry
            (take (nat b) (drop (nat i) items) @ drop (nat (i + b)) items) acc"
      by (simp only: sp)
    also have "\<dots> = bulk_batch api lst dry (drop (nat (i + b)) items)
            (bulk_batch api lst dry (take (nat b) (drop (nat i) items)) acc)"
      by (rule bulk_batch_append)
    finally show ?thesis
      using step less.hyps [OF dec less.prems(1) nn] by simp
  qed
qed


lemma set_js_slice: "set (js_slice xs a b) \<subseteq> set xs"
  unfolding js_slice_def Let_def
  by (meson set_take_subset set_drop_subset subset_trans)

lemma bulk_batch_results_dry_set:
  "r \<in> set (fst (bulk_batch api lst True its acc)) \<Longrightarrow>
   r \<in> set (fst acc) \<or> (\<not> res_success r \<and> res_dryRun r \<and> res_message r = ''dry-run'')"
  by (auto simp add: bulk_batch_results_dry)

lemma bulk_loop_calls:
  "bulk_loop api lst dry bs items i acc = Some y \<Longrightarrow>
   set (snd y) \<subseteq> set (snd acc) \<union> set items \<and> (dry \<longrightarrow> snd y = snd acc)
   \<and> (dry \<longrightarrow> (\<forall>r \<in> set (fst y). r \<in> set (fst acc) \<or>
         (\<not> res_success r \<and> res_dryRun r \<and> res_message r = ''dry-run'')))"
proof (induction rule: bulk_loop.raw_induct [rotated 1, consumes 1, case_names step])
  case (step loop api lst dry bs items i acc y)
  show ?case
  proof (cases i)
    case None
    then show ?thesis using step(2) by auto
  next
    case (Some iv)
    show ?thesis
    proof (cases "iv < int (length items)")
      case False
      then show ?thesis using step(2) Some by auto
    next
      case True
      let ?acc = "bulk_batch api lst dry (js_slice items i (js_add i bs)) acc"
      have "loop api lst dry bs items (js_add i bs) ?acc = Some y"
        using step(2) Some True by simp
      from step(1) [OF this]
      have ih: "set (snd y) \<subseteq> set (snd ?acc) \<union> set items" "dry \<longrightarrow> snd y = snd ?acc"
        "dry \<longrightarrow> (\<forall>r \<in> set (fst y). r \<in> set (fst ?acc) \<or>
           (\<not> res_success r \<and> res_dryRun r \<and> res_message r = ''dry-run''))"
        by blast+
      have a1: "set (snd ?acc) \<subseteq> set (snd acc) \<union> set items"
        using set_js_slice [of items i "js_add i bs"] by (auto simp add: bulk_batch_calls)
      have a2: "dry \<longrightarrow> snd ?acc = snd acc"
        by (simp add: bulk_batch_calls)
      have a3: "dry \<longrightarrow> (\<forall>r \<in> set (fst ?acc). r \<in> set (fst acc) \<or>
           (\<not> res_success r \<and> res_dryRun r \<and> res_message r = ''dry-run''))"
        by (cases dry) (auto dest: bulk_batch_results_dry_set)
      have p1: "set (snd y) \<subseteq> set (snd acc) \<union> set items"
        using ih(1) a1 by blast
      have p2: "dry \<longrightarrow> snd y = snd acc"
        using ih(2) a2 by simp
      have p3: "dry \<longrightarrow> (\<forall>r \<in> set (fst y). r \<in> set (fst acc) \<or>
           (\<not> res_success r \<and> res_dryRun r \<and> res_message r = ''dry-run''))"
        using ih(3) a3 by blast
      show ?thesis using p1 p2 p3 by blast
    qed
  qed
qed

lemma bulk_loop_stuck:
  "bulk_loop api lst dry bs items i acc = Some y \<Longrightarrow>
   \<not> (\<exists>b iv. bs = Some b \<and> b \<le> 0 \<and> i = Some iv \<and> iv < int (length items))"
proof (induction rule: bulk_loop.raw_induct [rotated 1, consumes 1, case_names step])
  case (step loop api lst dry bs items i acc y)
  show ?case
  proof
    assume "\<exists>b iv. bs = Some b \<and> b \<le> 0 \<and> i = Some iv \<and> iv < int (length items)"
    then obtain b iv where h: "bs = Some b" "b \<le> 0" "i = Some iv" "iv < int (length items)"
      by blast
    let ?acc = "bulk_batch api lst dry (js_slice items i (js_add i bs)) acc"
    have "loop api lst dry bs items (Some (iv + b)) ?acc = Some y"
      using step(2) h by (simp add: js_add_def)
    from step(1) [OF this] show False using h by auto
  qed
qed

lemma bulkSubscribe_nonpositive_batch:
  "b \<le> 0 \<Longrightarrow> items \<noteq> [] \<Longrightarrow> bulkSubscribe api lst items dry (Some b) = None"
proof (rule ccontr)
  assume b: "b \<le> 0" and ne: "items \<noteq> []"
  assume "bulkSubscribe api lst items dry (Some b) \<noteq> None"
  then obtain y where "bulk_loop api lst dry (Some b) items (Some 0) ([], []) = Some y"
    by (auto simp add: bulkSubscribe_def)
  from bulk_loop_stuck [OF this] show False using b ne by simp
qed

lemma bulkSubscribe_NaN_batch:
  "bulkSubscribe api lst items dry None = Some ([], [])"
  unfolding bulkSubscribe_def
  by (subst bulk_loop.simps, subst bulk_loop.simps)
     (simp add: js_add_def js_slice_def js_rel_index_def)

lemma bulkSubscribe_returns:
  "1 \<le> b \<Longrightarrow> bulkSubscribe api lst items dry (Some b) = Some (bulk_batch api lst dry items ([], []))"
  using bulk_loop_returns [of b 0 api lst dry items "([], [])"] by (simp add: bulkSubscribe_def)


lemma bulkSubscribe_dry_run:
  "1 \<le> b \<Longrightarrow>
   bulkSubscribe api lst items True (Some b) =
     Some (map (\<lambda>it. \<lparr>res_email = it_email it, res_success = False, res_dryRun = True,
                         res_message = ''dry-run'', res_statusCode = None\<rparr>) items, [])"
  using bulk_batch_results_dry [of api lst items "([], [])"]
    bulk_batch_calls [of api lst True items "([], [])"]
  by (simp add: bulkSubscribe_returns prod_eq_iff)

lemma cache_successes_none:
  "\<forall>r \<in> set results. \<not> res_success r \<Longrightarrow>
   cache_successes opt lst d now results acc = acc"
  by (induction opt lst d now results acc rule: cache_successes.induct) simp_all

lemma run_dry_run:
  assumes "dryRun opt" and "run opt lst d api sub now rows = Some out"
  shows "out_calls out = [] \<and> rep_subscribed (out_report out) = 0
         \<and> (\<forall>r \<in> set (rep_results (out_report out)).
               \<not> res_success r \<and> res_dryRun r \<and> res_message r = ''dry-run'')"
proof -
  obtain d1 fc1 where p: "(if noPersistentCache opt then (d, new_FileCache)
             else (let fc = load d new_FileCache in
                   if refreshPersistent opt then clear d fc else (d, fc))) = (d1, fc1)"
    by (cases "(if noPersistentCache opt then (d, new_FileCache)
             else (let fc = load d new_FileCache in
                   if refreshPersistent opt then clear d fc else (d, fc)))") 
  let ?st = "sync_loop opt lst d1 api now (initial_state Map.empty fc1) rows"
  obtain results calls where
    b: "bulkSubscribe sub lst (toSubscribe ?st) (dryRun opt) (batchSize opt) = Some (results, calls)"
    using assms(2) p by (auto simp add: run_def Let_def split: option.splits)
  from bulk_loop_calls [OF b [unfolded bulkSubscribe_def]] assms(1)
  have c: "calls = []" and r: "\<forall>r \<in> set results. \<not> res_success r \<and> res_dryRun r \<and> res_message r = ''dry-run''"
    by auto
  have cs: "cache_successes opt lst d1 now results (mem ?st, fcache ?st, 0) = (mem ?st, fcache ?st, 0)"
    using r by (simp add: cache_successes_none)
  show ?thesis
    using assms(2) p b c r cs by (auto simp add: run_def Let_def)
qed


lemma step_checked:
  "set (checked (sync_step opt lst d api now st r)) \<subseteq> insert (it_email r) (set (checked st))"
  by (cases "getSubscriberStatus api (it_email r) lst")
     (auto simp add: sync_step_def Let_def split_beta)

lemma loop_checked_no_hit:
  "\<not> noPersistentCache opt \<Longrightarrow> fc_loaded (fcache st) \<Longrightarrow>
   e \<in> set (checked (sync_loop opt lst d api now st rows)) \<Longrightarrow>
   e \<in> set (checked st) \<or> \<not> persistent_hit (fc_data (fcache st)) lst e"
proof (induction rows arbitrary: st)
  case Nil
  then show ?case by simp
next
  case (Cons r rows)
  let ?st = "sync_step opt lst d api now st r"
  have ld: "fc_loaded (fcache ?st)"
    using step_loaded [of opt st lst d api now r] Cons.prems by simp
  from Cons.IH [OF Cons.prems(1) ld] Cons.prems(3)
  have "e \<in> set (checked ?st) \<or> \<not> persistent_hit (fc_data (fcache ?st)) lst e"
    by simp
  then show ?case
  proof
    assume "e \<in> set (checked ?st)"
    then show ?thesis
      using step_persistent_hit [OF Cons.prems(1,2), where lst = lst and r = r and d = d
          and api = api and now = now]
        step_checked [of opt lst d api now st r] by auto
  next
    assume "\<not> persistent_hit (fc_data (fcache ?st)) lst e"
    then show ?thesis using step_hit_mono [OF Cons.prems(2)] by blast
  qed
qed

lemma hasEmail_snd_lower:
  "snd (hasEmail d fc lst (toLowerCase e)) = snd (hasEmail d fc lst e)"
  by (simp add: hasEmail_def Let_def toLowerCase_idem split: option.splits)

lemma hasEmail_fst_lower:
  "fst (hasEmail d fc lst (toLowerCase e)) = fst (hasEmail d fc lst e)"
  by (simp add: hasEmail_def Let_def split: option.splits)

lemma step_persistent_lookup_hit:
  "\<not> (\<not> noCache opt \<and> cache_get (mem st) (cacheKey lst (it_email r))) \<Longrightarrow>
   \<not> noPersistentCache opt \<Longrightarrow> snd (hasEmail d (fcache st) lst (it_email r)) \<Longrightarrow>
   toSubscribe (sync_step opt lst d api now st r) = toSubscribe st
   \<and> checked (sync_step opt lst d api now st r) = checked st
   \<and> c_alreadySubscribed (sync_step opt lst d api now st r) = c_alreadySubscribed st + 1"
  by (simp add: sync_step_def Let_def split_beta hasEmail_snd_lower)

lemma run_persistent_enabled:
  assumes "\<not> noPersistentCache opt" and "\<not> refreshPersistent opt"
    and "content d = Some (Parsed dat)"
    and "run opt lst d api sub now rows = Some out"
  shows "(\<forall>x \<in> set (out_calls out). \<not> persistent_hit dat lst (it_email x))
       \<and> (\<forall>e \<in> set (out_checked out). \<not> persistent_hit dat lst e)"
proof -
  let ?fc = "\<lparr>fc_data = dat, fc_loaded = True\<rparr>"
  let ?init = "initial_state Map.empty ?fc"
  let ?st = "sync_loop opt lst d api now ?init rows"
  have ld: "load d new_FileCache = ?fc"
    using assms(3) by (simp add: load_def new_FileCache_def)
  obtain results calls where
    b: "bulkSubscribe sub lst (toSubscribe ?st) (dryRun opt) (batchSize opt) = Some (results, calls)"
    using assms ld by (auto simp add: run_def Let_def split: option.splits)
  have oc: "out_calls out = calls" and ock: "out_checked out = checked ?st"
    using assms ld b by (auto simp add: run_def Let_def split_beta)
  have sub: "set calls \<subseteq> set (toSubscribe ?st)"
    using bulk_loop_calls [OF b [unfolded bulkSubscribe_def]] by simp
  have q: "\<And>x. x \<in> set (toSubscribe ?st) \<Longrightarrow> \<not> persistent_hit dat lst (it_email x)"
    using loop_queue_no_hit [OF assms(1), where st = ?init and lst = lst and d = d and api = api
        and now = now and rows = rows] by (simp add: initial_state_def)
  have c: "\<And>e. e \<in> set (checked ?st) \<Longrightarrow> \<not> persistent_hit dat lst e"
    using loop_checked_no_hit [OF assms(1), where st = ?init and lst = lst and d = d and api = api
        and now = now and rows = rows] by (simp add: initial_state_def)
  show ?thesis
  proof (intro conjI ballI)
    fix x assume "x \<in> set (out_calls out)"
    then have "x \<in> set (toSubscribe ?st)" using oc sub by auto
    then show "\<not> persistent_hit dat lst (it_email x)" by (rule q)
  next
    fix e assume "e \<in> set (out_checked out)"
    then have "e \<in> set (checked ?st)" using ock by simp
    then show "\<not> persistent_hit dat lst e" by (rule c)
  qed
qed


section \<open>Claims about the sync run\<close>

lemma status_not_in_list:
  "getSubscriberStatus (status_always ''Not in list'') e l = Status ''not-in-list''"
  by (simp add: getSubscriberStatus_def status_always_def str_eval Let_def)

lemma status_unsubscribed:
  "getSubscriberStatus (status_always ''Unsubscribed'') e l = Status ''unsubscribed''"
  by (simp add: getSubscriberStatus_def status_always_def str_eval Let_def)

text \<open>
  Claim C1, as amended. In a run that has the in-memory cache enabled, a hit of the
  in-memory cache for the key of (list, address) skips the row: it is counted as cached,
  no status request is made and nothing is queued. Otherwise, in a run that has the
  persistent cache enabled, a hit of the persistent cache skips the row: it is counted as
  already subscribed, no status request is made and nothing is queued. Hence, in a run
  with the persistent cache enabled and not refreshed, no status request and no subscribe
  call is made for an address that the cache file holds for the list.
\<close>

theorem cache_hit_skips_record:
  "(\<not> noCache opt \<and> cache_get (mem st) (cacheKey lst (it_email r)) \<longrightarrow>
      toSubscribe (sync_step opt lst d api now st r) = toSubscribe st
      \<and> checked (sync_step opt lst d api now st r) = checked st
      \<and> c_cached (sync_step opt lst d api now st r) = c_cached st + 1)
   \<and> (\<not> (\<not> noCache opt \<and> cache_get (mem st) (cacheKey lst (it_email r)))
       \<and> \<not> noPersistentCache opt \<and> snd (hasEmail d (fcache st) lst (it_email r)) \<longrightarrow>
      toSubscribe (sync_step opt lst d api now st r) = toSubscribe st
      \<and> checked (sync_step opt lst d api now st r) = checked st
      \<and> c_alreadySubscribed (sync_step opt lst d api now st r) = c_alreadySubscribed st + 1)
   \<and> (\<not> noPersistentCache opt \<and> \<not> refreshPersistent opt \<and> content d = Some (Parsed dat)
       \<and> run opt lst d api sub now rows = Some out \<longrightarrow>
      (\<forall>x \<in> set (out_calls out). \<not> persistent_hit dat lst (it_email x))
      \<and> (\<forall>e \<in> set (out_checked out). \<not> persistent_hit dat lst e))"
  using step_mem_hit [of opt st lst r d api now]
    step_persistent_lookup_hit [of opt st lst r d api now]
    run_persistent_enabled [of opt d dat lst api sub now rows out]
  by blast

theorem cache_hit_skips_record_witness:
  "cache_get [cacheKey ''L1'' ''a@example.com'' \<mapsto> True] (cacheKey ''L1'' ''a@example.com'')
   \<and> toSubscribe (sync_step default_opts ''L1'' \<lparr>content = None, writable = True\<rparr>
         (status_always ''Not in list'') ''2025-11-02T00:00:00.000Z''
         (initial_state [cacheKey ''L1'' ''a@example.com'' \<mapsto> True] new_FileCache)
         \<lparr>it_email = ''a@example.com'', it_name = ''A''\<rparr>) = []
   \<and> snd (hasEmail \<lparr>content = None, writable = True\<rparr>
         \<lparr>fc_data = [''L1'' \<mapsto> [''a@example.com'' \<mapsto> ''2025-11-01T00:00:00.000Z'']],
          fc_loaded = True\<rparr> ''L1'' ''a@example.com'')
   \<and> checked (sync_step default_opts ''L1'' \<lparr>content = None, writable = True\<rparr>
         (status_always ''Not in list'') ''2025-11-02T00:00:00.000Z''
         (initial_state Map.empty
            \<lparr>fc_data = [''L1'' \<mapsto> [''a@example.com'' \<mapsto> ''2025-11-01T00:00:00.000Z'']],
             fc_loaded = True\<rparr>)
         \<lparr>it_email = ''a@example.com'', it_name = ''A''\<rparr>) = []
   \<and> map_option out_calls
        (run default_opts ''L1''
           \<lparr>content = Some (Parsed [''L1'' \<mapsto> [''a@example.com'' \<mapsto> ''2025-11-01T00:00:00.000Z'']]),
            writable = True\<rparr>
           (status_always ''Not in list'') (subscribe_always ''1'' 200)
           ''2025-11-02T00:00:00.000Z''
           [\<lparr>it_email = ''a@example.com'', it_name = ''A''\<rparr>,
            \<lparr>it_email = ''b@example.com'', it_name = ''B''\<rparr>])
       = Some [\<lparr>it_email = ''b@example.com'', it_name = ''B''\<rparr>]
   \<and> \<not> persistent_hit [''L1'' \<mapsto> [''a@example.com'' \<mapsto> ''2025-11-01T00:00:00.000Z'']]
         ''L1'' ''b@example.com''"
proof -
  let ?nofile = "\<lparr>content = None, writable = True\<rparr>"
  let ?dat = "[''L1'' \<mapsto> [''a@example.com'' \<mapsto> ''2025-11-01T00:00:00.000Z'']]"
  let ?d = "\<lparr>content = Some (Parsed ?dat), writable = True\<rparr>"
  let ?a = "\<lparr>it_email = ''a@example.com'', it_name = ''A''\<rparr>"
  let ?b = "\<lparr>it_email = ''b@example.com'', it_name = ''B''\<rparr>"
  let ?api = "status_always ''Not in list''"
  let ?sub = "subscribe_always ''1'' 200"
  let ?now = "''2025-11-02T00:00:00.000Z''"
  let ?sta = "initial_state [cacheKey ''L1'' ''a@example.com'' \<mapsto> True] new_FileCache"
  let ?stb = "initial_state Map.empty \<lparr>fc_data = ?dat, fc_loaded = True\<rparr>"
  have h1: "\<not> noCache default_opts" "\<not> noPersistentCache default_opts"
      "\<not> refreshPersistent default_opts"
    by (simp_all add: default_opts_def)
  have h2: "\<not> dryRun default_opts" "\<not> clearCache default_opts"
      "batchSize default_opts = Some 20"
    by (simp_all add: default_opts_def)
  have m1: "cache_get (mem ?sta) (cacheKey ''L1'' (it_email ?a))"
    by (simp add: initial_state_def cache_get_def)
  have m2: "\<not> cache_get (mem ?stb) (cacheKey ''L1'' (it_email ?a))"
    by (simp add: initial_state_def cache_get_def)
  have p2: "snd (hasEmail ?nofile (fcache ?stb) ''L1'' (it_email ?a))"
    by (simp add: initial_state_def hasEmail_loaded persistent_hit_def truthy_def str_eval)
  have sa: "sync_step default_opts ''L1'' ?d ?api ?now ?stb ?a = ?stb\<lparr>c_alreadySubscribed := 1\<rparr>"
    by (simp add: sync_step_def default_opts_def cache_get_def initial_state_def
        hasEmail_def ensureList_def load_def truthy_def str_eval Let_def)
  have sb: "toSubscribe (sync_step default_opts ''L1'' ?d ?api ?now
              (?stb\<lparr>c_alreadySubscribed := Suc 0\<rparr>) ?b) = [?b]"
    by (simp add: sync_step_def default_opts_def cache_get_def initial_state_def
        hasEmail_def ensureList_def load_def truthy_def str_eval Let_def status_not_in_list)
  have ld: "load ?d new_FileCache = \<lparr>fc_data = ?dat, fc_loaded = True\<rparr>"
    by (simp add: load_def new_FileCache_def)
  have oc: "map_option out_calls (run default_opts ''L1'' ?d ?api ?sub ?now [?a, ?b]) = Some [?b]"
    by (simp add: run_def h1 h2 ld sa sb bulkSubscribe_returns Let_def split_beta
        bulk_batch_calls)
  then obtain out where out: "run default_opts ''L1'' ?d ?api ?sub ?now [?a, ?b] = Some out"
    and calls: "out_calls out = [?b]"
    by auto
  have c1: "toSubscribe (sync_step default_opts ''L1'' ?nofile ?api ?now ?sta ?a) = toSubscribe ?sta"
    using cache_hit_skips_record [of default_opts ?sta "''L1''" ?a ?nofile ?api ?now] h1 m1 by blast
  have c2: "checked (sync_step default_opts ''L1'' ?nofile ?api ?now ?stb ?a) = checked ?stb"
    using cache_hit_skips_record [of default_opts ?stb "''L1''" ?a ?nofile ?api ?now] h1 m2 p2 by blast
  have c3: "\<forall>x \<in> set (out_calls out). \<not> persistent_hit ?dat ''L1'' (it_email x)"
    using cache_hit_skips_record [of default_opts ?sta "''L1''" ?a ?d ?api ?now ?dat ?sub
        "[?a, ?b]" out] h1 out by simp
  have c4: "\<not> persistent_hit ?dat ''L1'' ''b@example.com''"
    using c3 calls by simp
  have e1: "toSubscribe ?sta = []" and e2: "checked ?stb = []"
    and e3: "mem ?sta = [cacheKey ''L1'' ''a@example.com'' \<mapsto> True]"
    and e4: "fcache ?stb = \<lparr>fc_data = ?dat, fc_loaded = True\<rparr>"
    by (simp_all add: initial_state_def)
  show ?thesis
    using m1 p2 c1 c2 oc c4 unfolding e1 e2 e3 e4 item.simps by blast
qed

text \<open>
  The claim C1 as stated fails when the persistent cache is disabled
  (\<open>--no-persistent-cache\<close>): the address is in the cache file for the list, the file is
  neither cleared nor refreshed, and the run still submits the address.
\<close>

theorem disabled_persistent_cache_resubmits:
  "persistent_hit [''L1'' \<mapsto> [''a@example.com'' \<mapsto> ''2025-11-01T00:00:00.000Z'']]
     ''L1'' ''a@example.com''
   \<and> map_option out_calls
        (run (default_opts\<lparr>noPersistentCache := True\<rparr>) ''L1''
           \<lparr>content = Some (Parsed [''L1'' \<mapsto> [''a@example.com'' \<mapsto> ''2025-11-01T00:00:00.000Z'']]),
            writable = True\<rparr>
           (status_always ''Not in list'') (subscribe_always ''1'' 200)
           ''2025-11-02T00:00:00.000Z''
           [\<lparr>it_email = ''a@example.com'', it_name = ''A''\<rparr>])
       = Some [\<lparr>it_email = ''a@example.com'', it_name = ''A''\<rparr>]"
proof -
  have h: "persistent_hit [''L1'' \<mapsto> [''a@example.com'' \<mapsto> ''2025-11-01T00:00:00.000Z'']]
     ''L1'' ''a@example.com''"
    by (simp add: persistent_hit_def truthy_def str_eval)
  show ?thesis
    using h by (simp add: run_def default_opts_def sync_step_def status_not_in_list cache_get_def
        bulkSubscribe_returns Let_def split_beta bulk_batch_calls initial_state_def)
qed

text \<open>
  Claim C3. In dry-run mode \<open>bulkSubscribe\<close> is to return, for every queued item, a result
  with \<open>success = false\<close> and the message \<open>dry-run\<close>. It does so for a batch size of at
  least one (\<open>bulkSubscribe_dry_run\<close>), and a dry run that returns has called \<open>subscribe\<close>
  for nobody and reports zero subscribed (\<open>run_dry_run\<close>). With \<open>--batch-size=0\<close> the loop
  index never advances and \<open>bulkSubscribe\<close> does not return; with a batch size that
  \<open>parseInt\<close> reads as \<open>NaN\<close> it returns no result at all for a queued item.
\<close>

theorem bulkSubscribe_dry_run_degenerate_batch:
  "bulkSubscribe api lst [\<lparr>it_email = ''a@example.com'', it_name = ''A''\<rparr>] True (Some 0) = None
   \<and> bulkSubscribe api lst [\<lparr>it_email = ''a@example.com'', it_name = ''A''\<rparr>] True None
       = Some ([], [])"
  using bulkSubscribe_nonpositive_batch
      [of 0 "[\<lparr>it_email = ''a@example.com'', it_name = ''A''\<rparr>]" api lst True]
    bulkSubscribe_NaN_batch [of api lst "[\<lparr>it_email = ''a@example.com'', it_name = ''A''\<rparr>]" True]
  by simp

lemma step_unsubscribed_not_queued:
  "getSubscriberStatus api (it_email r) lst = Status ''unsubscribed'' \<Longrightarrow>
   toSubscribe (sync_step opt lst d api now st r) = toSubscribe st"
  by (simp add: sync_step_def Let_def split_beta)

lemma step_queue_status:
  "x \<in> set (toSubscribe (sync_step opt lst d api now st r)) \<Longrightarrow>
   x \<in> set (toSubscribe st) \<or> getSubscriberStatus api (it_email x) lst \<noteq> Status ''unsubscribed''"
  using step_unsubscribed_not_queued [of api r lst opt d now st]
    step_queue [of opt lst d api now st r]
  by (cases "x = r") auto

lemma loop_queue_status:
  "x \<in> set (toSubscribe (sync_loop opt lst d api now st rows)) \<Longrightarrow>
   x \<in> set (toSubscribe st) \<or> getSubscriberStatus api (it_email x) lst \<noteq> Status ''unsubscribed''"
proof (induction rows arbitrary: st)
  case Nil
  then show ?case by simp
next
  case (Cons r rows)
  from Cons.IH [of "sync_step opt lst d api now st r"] Cons.prems
  have "x \<in> set (toSubscribe (sync_step opt lst d api now st r))
        \<or> getSubscriberStatus api (it_email x) lst \<noteq> Status ''unsubscribed''"
    by simp
  then show ?case using step_queue_status by blast
qed

lemma run_unsubscribed_no_call:
  assumes "run opt lst d api sub now rows = Some out"
    and "getSubscriberStatus api e lst = Status ''unsubscribed''"
  shows "e \<notin> it_email ` set (out_calls out)"
proof
  assume "e \<in> it_email ` set (out_calls out)"
  then obtain x where x: "x \<in> set (out_calls out)" "it_email x = e" by auto
  obtain d1 fc1 where p: "(if noPersistentCache opt then (d, new_FileCache)
             else (let fc = load d new_FileCache in
                   if refreshPersistent opt then clear d fc else (d, fc))) = (d1, fc1)"
    by (cases "(if noPersistentCache opt then (d, new_FileCache)
             else (let fc = load d new_FileCache in
                   if refreshPersistent opt then clear d fc else (d, fc)))")
  let ?st = "sync_loop opt lst d1 api now (initial_state Map.empty fc1) rows"
  obtain results calls where
    b: "bulkSubscribe sub lst (toSubscribe ?st) (dryRun opt) (batchSize opt) = Some (results, calls)"
    using assms(1) p by (auto simp add: run_def Let_def split: option.splits)
  have oc: "out_calls out = calls"
    using assms(1) p b by (auto simp add: run_def Let_def split_beta)
  have "set calls \<subseteq> set (toSubscribe ?st)"
    using bulk_loop_calls [OF b [unfolded bulkSubscribe_def]] by simp
  then have "x \<in> set (toSubscribe ?st)" using x oc by auto
  from loop_queue_status [OF this] show False
    using x assms(2) by (simp add: initial_state_def)
qed

lemma hasEmail_load: "hasEmail d (load d fc) l e = hasEmail d fc l e"
  by (simp add: hasEmail_def load_idem load_loaded)

lemma hasEmail_again:
  "snd (hasEmail d (fst (hasEmail d fc l e)) l e) = snd (hasEmail d fc l e)"
proof -
  let ?fc = "load d fc"
  have ld: "fc_loaded ?fc" by (rule load_loaded)
  have "snd (hasEmail d (fst (hasEmail d ?fc l e)) l e)
        = persistent_hit (fc_data (fst (hasEmail d ?fc l e))) l e"
    by (rule hasEmail_loaded) (rule hasEmail_fst_loaded)
  also have "\<dots> = persistent_hit (fc_data ?fc) l e"
    by (rule hasEmail_fst_hit [OF ld])
  also have "\<dots> = snd (hasEmail d ?fc l e)"
    by (rule hasEmail_loaded [OF ld, symmetric])
  finally show ?thesis by (simp add: hasEmail_load)
qed

lemma step_unsubscribed_checked:
  assumes "getSubscriberStatus api (it_email r) lst = Status ''unsubscribed''"
    and "\<not> (\<not> noCache opt \<and> cache_get (mem st) (cacheKey lst (it_email r)))"
    and "\<not> (\<not> noPersistentCache opt \<and> snd (hasEmail d (fcache st) lst (it_email r)))"
  shows "checked (sync_step opt lst d api now st r) = checked st @ [it_email r]"
    and "c_unsubscribed (sync_step opt lst d api now st r) = c_unsubscribed st + 1"
    and "mem (sync_step opt lst d api now st r) =
           (if noCache opt then mem st else (mem st)(cacheKey lst (it_email r) \<mapsto> True))"
    and "fcache (sync_step opt lst d api now st r) =
           (if noPersistentCache opt then fcache st
            else fst (hasEmail d (fcache st) lst (it_email r)))"
  using assms
  by (auto simp add: sync_step_def Let_def split_beta hasEmail_snd_lower hasEmail_fst_lower)



text \<open>
  Claim C2, as amended. A row whose status check returns the normalized status
  \<open>unsubscribed\<close> is never queued, whatever the options and the caches are, so no run in
  which the status of an address reports \<open>unsubscribed\<close> issues a subscribe call for it.
  When the check is reached, the row is counted as unsubscribed, the address is recorded
  in the in-memory cache unless that cache is disabled (\<open>--no-cache\<close>), and it is not
  recorded in the persistent cache: the persistent cache only takes the effect of the
  lookup, and a lookup of the address still misses afterwards.
\<close>

theorem unsubscribed_is_skipped:
  "(getSubscriberStatus api (it_email r) lst = Status ''unsubscribed'' \<longrightarrow>
      toSubscribe (sync_step opt lst d api now st r) = toSubscribe st)
   \<and> (getSubscriberStatus api e lst = Status ''unsubscribed''
       \<and> run opt lst d api sub now rows = Some out \<longrightarrow>
      e \<notin> it_email ` set (out_calls out))
   \<and> (getSubscriberStatus api (it_email r) lst = Status ''unsubscribed''
       \<and> \<not> (\<not> noCache opt \<and> cache_get (mem st) (cacheKey lst (it_email r)))
       \<and> \<not> (\<not> noPersistentCache opt \<and> snd (hasEmail d (fcache st) lst (it_email r))) \<longrightarrow>
      checked (sync_step opt lst d api now st r) = checked st @ [it_email r]
      \<and> c_unsubscribed (sync_step opt lst d api now st r) = c_unsubscribed st + 1
      \<and> mem (sync_step opt lst d api now st r) =
           (if noCache opt then mem st else (mem st)(cacheKey lst (it_email r) \<mapsto> True))
      \<and> fcache (sync_step opt lst d api now st r) =
           (if noPersistentCache opt then fcache st
            else fst (hasEmail d (fcache st) lst (it_email r)))
      \<and> (if noPersistentCache opt then True
          else snd (hasEmail d (fcache (sync_step opt lst d api now st r)) lst (it_email r))
               = False))"
proof (intro conjI impI)
  assume "getSubscriberStatus api (it_email r) lst = Status ''unsubscribed''"
  then show "toSubscribe (sync_step opt lst d api now st r) = toSubscribe st"
    by (rule step_unsubscribed_not_queued)
next
  assume "getSubscriberStatus api e lst = Status ''unsubscribed''
       \<and> run opt lst d api sub now rows = Some out"
  then show "e \<notin> it_email ` set (out_calls out)"
    using run_unsubscribed_no_call by blast
next
  assume a: "getSubscriberStatus api (it_email r) lst = Status ''unsubscribed''
       \<and> \<not> (\<not> noCache opt \<and> cache_get (mem st) (cacheKey lst (it_email r)))
       \<and> \<not> (\<not> noPersistentCache opt \<and> snd (hasEmail d (fcache st) lst (it_email r)))"
  note s = step_unsubscribed_checked [of api r lst opt st d now]
  show "checked (sync_step opt lst d api now st r) = checked st @ [it_email r]"
    using a s(1) by blast
  show "c_unsubscribed (sync_step opt lst d api now st r) = c_unsubscribed st + 1"
    using a s(2) by blast
  show "mem (sync_step opt lst d api now st r) =
           (if noCache opt then mem st else (mem st)(cacheKey lst (it_email r) \<mapsto> True))"
    using a s(3) by blast
  show f: "fcache (sync_step opt lst d api now st r) =
           (if noPersistentCache opt then fcache st
            else fst (hasEmail d (fcache st) lst (it_email r)))"
    using a s(4) by blast
  show "if noPersistentCache opt then True
          else snd (hasEmail d (fcache (sync_step opt lst d api now st r)) lst (it_email r))
               = False"
    using a f by (auto simp add: hasEmail_again)
qed


theorem unsubscribed_is_skipped_witness:
  "getSubscriberStatus (status_always ''Unsubscribed'') ''a@example.com'' ''L1''
     = Status ''unsubscribed''
   \<and> toSubscribe (sync_step default_opts ''L1'' \<lparr>content = None, writable = True\<rparr>
          (status_always ''Unsubscribed'') ''2025-11-02T00:00:00.000Z''
          (initial_state Map.empty \<lparr>fc_data = Map.empty, fc_loaded = True\<rparr>)
          \<lparr>it_email = ''a@example.com'', it_name = ''A''\<rparr>) = []
   \<and> checked (sync_step default_opts ''L1'' \<lparr>content = None, writable = True\<rparr>
          (status_always ''Unsubscribed'') ''2025-11-02T00:00:00.000Z''
          (initial_state Map.empty \<lparr>fc_data = Map.empty, fc_loaded = True\<rparr>)
          \<lparr>it_email = ''a@example.com'', it_name = ''A''\<rparr>) = [''a@example.com'']
   \<and> mem (sync_step default_opts ''L1'' \<lparr>content = None, writable = True\<rparr>
          (status_always ''Unsubscribed'') ''2025-11-02T00:00:00.000Z''
          (initial_state Map.empty \<lparr>fc_data = Map.empty, fc_loaded = True\<rparr>)
          \<lparr>it_email = ''a@example.com'', it_name = ''A''\<rparr>)
        (cacheKey ''L1'' ''a@example.com'') = Some True
   \<and> snd (hasEmail \<lparr>content = None, writable = True\<rparr>
          (fcache (sync_step default_opts ''L1'' \<lparr>content = None, writable = True\<rparr>
             (status_always ''Unsubscribed'') ''2025-11-02T00:00:00.000Z''
             (initial_state Map.empty \<lparr>fc_data = Map.empty, fc_loaded = True\<rparr>)
             \<lparr>it_email = ''a@example.com'', it_name = ''A''\<rparr>))
          ''L1'' ''a@example.com'') = False
   \<and> map_option out_calls
        (run default_opts ''L1'' \<lparr>content = None, writable = True\<rparr>
           (status_always ''Unsubscribed'') (subscribe_always ''1'' 200)
           ''2025-11-02T00:00:00.000Z'' [\<lparr>it_email = ''a@example.com'', it_name = ''A''\<rparr>])
       = Some []"
proof -
  let ?nofile = "\<lparr>content = None, writable = True\<rparr>"
  let ?a = "\<lparr>it_email = ''a@example.com'', it_name = ''A''\<rparr>"
  let ?api = "status_always ''Unsubscribed''"
  let ?sub = "subscribe_always ''1'' 200"
  let ?now = "''2025-11-02T00:00:00.000Z''"
  let ?st = "initial_state Map.empty \<lparr>fc_data = Map.empty, fc_loaded = True\<rparr>"
  let ?step = "sync_step default_opts ''L1'' ?nofile ?api ?now ?st ?a"
  have o: "\<not> noCache default_opts" "\<not> noPersistentCache default_opts"
    by (simp_all add: default_opts_def)
  have e: "it_email ?a = ''a@example.com''" by simp
  have u: "getSubscriberStatus ?api (it_email ?a) ''L1'' = Status ''unsubscribed''"
    by (rule status_unsubscribed)
  have m: "\<not> (\<not> noCache default_opts \<and> cache_get (mem ?st) (cacheKey ''L1'' (it_email ?a)))"
    by (simp add: initial_state_def cache_get_def)
  have p: "\<not> (\<not> noPersistentCache default_opts
             \<and> snd (hasEmail ?nofile (fcache ?st) ''L1'' (it_email ?a)))"
    by (simp add: initial_state_def hasEmail_loaded persistent_hit_def)
  have r: "run default_opts ''L1'' ?nofile ?api ?sub ?now [?a] \<noteq> None"
    by (simp add: run_def default_opts_def bulkSubscribe_returns Let_def split_beta)
  then obtain out where out: "run default_opts ''L1'' ?nofile ?api ?sub ?now [?a] = Some out"
    by blast
  note inst = unsubscribed_is_skipped [of ?api ?a "''L1''" default_opts ?nofile ?now ?st
      "''a@example.com''" ?sub "[?a]" out]
  have c1: "toSubscribe ?step = toSubscribe ?st"
    using inst u by blast
  have c2: "checked ?step = checked ?st @ [it_email ?a]"
    and c3: "mem ?step = (mem ?st)(cacheKey ''L1'' (it_email ?a) \<mapsto> True)"
    and c4: "snd (hasEmail ?nofile (fcache ?step) ''L1'' (it_email ?a)) = False"
    using inst u m p o by auto
  have c5: "''a@example.com'' \<notin> it_email ` set (out_calls out)"
    using inst u out e by metis
  have sub: "set (out_calls out) \<subseteq> {?a}"
  proof -
    obtain results calls where
      b: "bulkSubscribe ?sub ''L1''
            (toSubscribe (sync_loop default_opts ''L1'' ?nofile ?api ?now
               (initial_state Map.empty (load ?nofile new_FileCache)) [?a]))
            (dryRun default_opts) (batchSize default_opts) = Some (results, calls)"
      and oc: "out_calls out = calls"
      using out o
      by (auto simp add: run_def Let_def split_beta default_opts_def split: option.splits)
    have "set calls \<subseteq> set (toSubscribe (sync_loop default_opts ''L1'' ?nofile ?api ?now
               (initial_state Map.empty (load ?nofile new_FileCache)) [?a]))"
      using bulk_loop_calls [OF b [unfolded bulkSubscribe_def]] by simp
    also have "\<dots> \<subseteq> insert ?a (set (toSubscribe
        (initial_state Map.empty (load ?nofile new_FileCache))))"
      using step_queue by simp
    finally show ?thesis using oc by (simp add: initial_state_def)
  qed
  have c6: "out_calls out = []"
  proof (cases "out_calls out")
    case Nil
    then show ?thesis .
  next
    case (Cons x xs)
    then have "x = ?a" using sub by auto
    then show ?thesis using c5 Cons by simp
  qed
  have i1: "toSubscribe ?st = []" and i2: "checked ?st = []" and i3: "mem ?st = Map.empty"
    by (simp_all add: initial_state_def)
  show ?thesis
    using u c1 c2 c3 c4 c6 out unfolding i1 i2 i3 e by simp
qed

text \<open>
  The claim C2 as stated fails with \<open>--no-cache\<close>: the status check returns
  \<open>unsubscribed\<close>, and the address is not recorded in the in-memory cache.
\<close>

theorem no_cache_unsubscribed_not_recorded:
  "getSubscriberStatus (status_always ''Unsubscribed'') ''a@example.com'' ''L1''
     = Status ''unsubscribed''
   \<and> mem (sync_step (default_opts\<lparr>noCache := True\<rparr>) ''L1'' \<lparr>content = None, writable = True\<rparr>
          (status_always ''Unsubscribed'') ''2025-11-02T00:00:00.000Z''
          (initial_state Map.empty \<lparr>fc_data = Map.empty, fc_loaded = True\<rparr>)
          \<lparr>it_email = ''a@example.com'', it_name = ''A''\<rparr>)
        (cacheKey ''L1'' ''a@example.com'') = None
   \<and> checked (sync_step (default_opts\<lparr>noCache := True\<rparr>) ''L1'' \<lparr>content = None, writable = True\<rparr>
          (status_always ''Unsubscribed'') ''2025-11-02T00:00:00.000Z''
          (initial_state Map.empty \<lparr>fc_data = Map.empty, fc_loaded = True\<rparr>)
          \<lparr>it_email = ''a@example.com'', it_name = ''A''\<rparr>) = [''a@example.com'']"
  by (simp add: status_unsubscribed sync_step_def default_opts_def initial_state_def
      hasEmail_def ensureList_def load_def Let_def)




section \<open>Claims about the date window\<close>

lemma js_includes_sublist: "js_includes s t = sublist t s"
  by (induction s) (auto simp add: sublist_Cons_right)

lemma js_includes_char: "js_includes s [c] = (c \<in> set s)"
  by (induction s) auto

lemma matches_pattern_chars:
  "matches_pattern p s \<Longrightarrow> length s = length p \<and> (\<forall>c \<in> set s. is_digit c \<or> c \<in> set p)"
  by (induction p s rule: matches_pattern.induct) (auto split: if_splits)

lemma matches_ymd_chars:
  assumes "matches_ymd v"
  shows "truthy v \<and> CHR ''T'' \<notin> set v \<and> CHR ''='' \<notin> set v"
proof -
  have len: "length v = 10" and ch: "\<forall>c \<in> set v. is_digit c \<or> c \<in> set ''dddd-dd-dd''"
    using matches_pattern_chars [of "''dddd-dd-dd''" v] assms by (simp_all add: matches_ymd_def)
  have t: "\<not> is_digit CHR ''T''" "CHR ''T'' \<notin> set ''dddd-dd-dd''"
    and e: "\<not> is_digit CHR ''=''" "CHR ''='' \<notin> set ''dddd-dd-dd''"
    by (simp_all add: is_digit_def)
  have "v \<noteq> []" using len by auto
  then show ?thesis using ch t e unfolding truthy_def by blast
qed

lemma normalizeDate_ymd:
  "matches_ymd v \<Longrightarrow>
   normalizeDate v ''until'' = v @ ''T23:59:59Z'' \<and> normalizeDate v ''since'' = v @ ''T00:00:00Z''"
  using matches_ymd_chars [of v] by (simp add: normalizeDate_def js_includes_char)

lemma normalizeDate_with_time:
  "CHR ''T'' \<in> set v \<Longrightarrow> normalizeDate v kind = v"
  by (simp add: normalizeDate_def js_includes_char)

lemma from_to_spaced:
  "matches_ymd v \<Longrightarrow>
   since (parse_args sc parseInt [''--from'', v] o0) = Some (v @ ''T00:00:00Z'')
   \<and> until (parse_args sc parseInt [''--to'', v] o0) = Some (v @ ''T23:59:59Z'')"
  using matches_ymd_chars [of v] normalizeDate_ymd [of v]
  by (simp add: eq_forms_def flag_forms_def Let_def)


text \<open>
  Claim C6. A value of the form YYYY-MM-DD is to become the day's start
  (\<open>T00:00:00Z\<close>) when given as \<open>--from\<close> or \<open>--since\<close> and the day's end (\<open>T23:59:59Z\<close>)
  when given as \<open>--to\<close> or \<open>--until\<close>; a value with a time component passes unchanged.
  \<open>normalizeDate\<close> does this (\<open>normalizeDate_ymd\<close>, \<open>normalizeDate_with_time\<close>) and the
  argument loop applies it to \<open>--from\<close> and \<open>--to\<close> (\<open>from_to_spaced\<close>), but it stores the
  value of \<open>--since\<close> and \<open>--until\<close> as it is, in both forms: \<open>--until=2025-11-01\<close>
  leaves the upper bound \<open>2025-11-01\<close>, where \<open>--to=2025-11-01\<close> gives
  \<open>2025-11-01T23:59:59Z\<close>.
\<close>

theorem since_until_not_normalized:
  "until (parse_args sc parseInt [''--until=2025-11-01''] default_opts) = Some ''2025-11-01''
   \<and> until (parse_args sc parseInt [''--until'', ''2025-11-01''] default_opts) = Some ''2025-11-01''
   \<and> since (parse_args sc parseInt [''--since=2025-11-01''] default_opts) = Some ''2025-11-01''
   \<and> since (parse_args sc parseInt [''--since'', ''2025-11-01''] default_opts) = Some ''2025-11-01''
   \<and> until (parse_args sc parseInt [''--to=2025-11-01''] default_opts) = Some ''2025-11-01T23:59:59Z''
   \<and> until (parse_args sc parseInt [''--to'', ''2025-11-01''] default_opts) = Some ''2025-11-01T23:59:59Z''
   \<and> since (parse_args sc parseInt [''--from=2025-11-01''] default_opts) = Some ''2025-11-01T00:00:00Z''
   \<and> since (parse_args sc parseInt [''--from'', ''2025-11-01''] default_opts) = Some ''2025-11-01T00:00:00Z''
   \<and> matches_ymd ''2025-11-01''"
  by (simp add: eq_forms_def flag_forms_def split_eq_1_def normalizeDate_def matches_ymd_def
      is_digit_def truthy_def Let_def)


section \<open>Claims about the subscribe response\<close>

lemma sublist_already:
  "sublist ''already subscribed.'' s \<Longrightarrow> sublist ''already subscribed'' s"
proof -
  have "sublist ''already subscribed'' ''already subscribed.''"
    by (rule prefix_imp_sublist) simp
  then show "sublist ''already subscribed.'' s \<Longrightarrow> sublist ''already subscribed'' s"
    using sublist_order.order_trans by blast
qed

lemma classify_success: "sr_success (classify text code) = spec_success text"
proof -
  let ?l = "toLowerCase text"
  have e: "list_ex (\<lambda>e. js_includes ?l e) errorIndicators
           = (\<not> (\<forall>e \<in> set errorIndicators. \<not> sublist e ?l))"
    by (simp add: list_ex_iff js_includes_sublist)
  have s: "list_ex (\<lambda>si. ?l = si \<or> js_includes ?l si) successIndicators
           = (\<exists>si \<in> set [''true'', ''already subscribed'', ''1'']. ?l = si \<or> sublist si ?l)"
    using sublist_already [of ?l]
    by (auto simp add: list_ex_iff js_includes_sublist successIndicators_def)
  show ?thesis
    unfolding classify_def Let_def spec_success_def e s by simp
qed


text \<open>
  Claim C5. \<open>subscribe\<close> classifies the response text as a success exactly when the text
  contains no known error phrase and contains or equals a known truthy indicator
  (\<open>true\<close>, \<open>already subscribed\<close>, \<open>1\<close>), the phrases being looked for in the lower-cased
  text; every other response is a failure. The text itself is the message of the result,
  and \<open>bulkSubscribe\<close> copies it into the sync result. The indicator \<open>1\<close> counts
  wherever it occurs in the text.
\<close>

theorem subscribe_classification:
  "sr_success (classify text code) = spec_success text
   \<and> sr_message (classify text code) = text
   \<and> sr_statusCode (classify text code) = Some code
   \<and> (api lst it = Inr (text, code) \<longrightarrow>
        subscribe api lst it
          = \<lparr>sr_success = spec_success text, sr_message = text, sr_statusCode = Some code\<rparr>
        \<and> fst (bulk_batch api lst False [it] ([], []))
          = [\<lparr>res_email = it_email it, res_success = spec_success text, res_dryRun = False,
               res_message = text, res_statusCode = Some code\<rparr>])"
proof -
  have c: "classify text code
      = \<lparr>sr_success = spec_success text, sr_message = text, sr_statusCode = Some code\<rparr>"
    using classify_success [of "text" code] by (simp add: classify_def Let_def)
  show ?thesis
    using c by (simp add: subscribe_def Let_def)
qed


theorem subscribe_classification_witness:
  "subscribe_always ''Already subscribed.'' 200 ''L1'' \<lparr>it_email = ''a@example.com'', it_name = ''A''\<rparr>
     = Inr (''Already subscribed.'', 200)
   \<and> fst (bulk_batch (subscribe_always ''Already subscribed.'' 200) ''L1'' False
            [\<lparr>it_email = ''a@example.com'', it_name = ''A''\<rparr>] ([], []))
       = [\<lparr>res_email = ''a@example.com'', res_success = True, res_dryRun = False,
            res_message = ''Already subscribed.'', res_statusCode = Some 200\<rparr>]
   \<and> spec_success ''1'' \<and> spec_success ''true'' \<and> spec_success ''Error 1045''
   \<and> \<not> spec_success ''Invalid email address.'' \<and> \<not> spec_success ''''
   \<and> \<not> spec_success ''Bounced email address.'' \<and> \<not> spec_success ''<html>Not found</html>''"
proof -
  let ?a = "\<lparr>it_email = ''a@example.com'', it_name = ''A''\<rparr>"
  let ?api = "subscribe_always ''Already subscribed.'' 200"
  have h: "?api ''L1'' ?a = Inr (''Already subscribed.'', 200)"
    by (simp add: subscribe_always_def)
  have ev: "sr_success (classify ''Already subscribed.'' 200)" "sr_success (classify ''1'' 0)"
      "sr_success (classify ''true'' 0)" "sr_success (classify ''Error 1045'' 0)"
      "\<not> sr_success (classify ''Invalid email address.'' 0)" "\<not> sr_success (classify [] 0)"
      "\<not> sr_success (classify ''Bounced email address.'' 0)"
      "\<not> sr_success (classify ''<html>Not found</html>'' 0)"
    by (simp_all add: classify_def Let_def successIndicators_def errorIndicators_def str_eval)
  have s: "spec_success ''Already subscribed.''" "spec_success ''1''" "spec_success ''true''"
      "spec_success ''Error 1045''" "\<not> spec_success ''Invalid email address.''"
      "\<not> spec_success ''''" "\<not> spec_success ''Bounced email address.''"
      "\<not> spec_success ''<html>Not found</html>''"
    using ev subscribe_classification [of "''Already subscribed.''" 200 ?api "''L1''" ?a]
      subscribe_classification [of "''1''" 0 ?api "''L1''" ?a]
      subscribe_classification [of "''true''" 0 ?api "''L1''" ?a]
      subscribe_classification [of "''Error 1045''" 0 ?api "''L1''" ?a]
      subscribe_classification [of "''Invalid email address.''" 0 ?api "''L1''" ?a]
      subscribe_classification [of "''''" 0 ?api "''L1''" ?a]
      subscribe_classification [of "''Bounced email address.''" 0 ?api "''L1''" ?a]
      subscribe_classification [of "''<html>Not found</html>''" 0 ?api "''L1''" ?a]
    by blast+
  have b: "fst (bulk_batch ?api ''L1'' False [?a] ([], []))
       = [\<lparr>res_email = it_email ?a, res_success = spec_success ''Already subscribed.'',
            res_dryRun = False, res_message = ''Already subscribed.'', res_statusCode = Some 200\<rparr>]"
    using subscribe_classification [of "''Already subscribed.''" 200 ?api "''L1''" ?a] h by blast
  show ?thesis
    using h b s by simp
qed


section \<open>Claims about the webhook handler\<close>

lemma webhook_no_signature:
  "rq_signature req = None \<Longrightarrow>
   rs_status (handleCalendlyWebhook hmac secret add_api m req) = 200
   \<and> \<not> rs_verified (handleCalendlyWebhook hmac secret add_api m req)"
  by (simp add: handleCalendlyWebhook_def Let_def split_beta)

lemma webhook_401_iff:
  "rs_status (handleCalendlyWebhook hmac secret add_api m req) = 401
   \<longleftrightarrow> (\<exists>sg. rq_signature req = Some sg \<and> truthy sg
           \<and> verifyWebhookSignature hmac secret (rq_body_json req) sg = Inr False)"
  by (auto simp add: handleCalendlyWebhook_def Let_def split_beta
      split: option.splits sum.splits)


text \<open>
  Claim C10. The handler is to answer 401 exactly when the request carries a signature
  header whose verification fails, and to process a request without a signature header
  with no verification at all. The second part holds (\<open>webhook_no_signature\<close>), and 401
  is the answer exactly when \<open>verifyWebhookSignature\<close> returns \<open>false\<close>
  (\<open>webhook_401_iff\<close>). But with a secret configured, a signature whose length differs
  from the length of the expected digest is not equal to it, and its verification does
  not return: \<open>timingSafeEqual\<close> throws, the handler's \<open>catch\<close> answers 500, and the
  request is not processed.
\<close>

theorem webhook_wrong_length_signature:
  "truthy sec \<Longrightarrow> truthy sg \<Longrightarrow> length sg \<noteq> length (hmac sec (rq_body_json req)) \<Longrightarrow>
   rq_signature req = Some sg \<Longrightarrow>
   sg \<noteq> hmac sec (rq_body_json req)
   \<and> verifyWebhookSignature hmac (Some sec) (rq_body_json req) sg = Inl RangeError
   \<and> rs_verified (handleCalendlyWebhook hmac (Some sec) add_api m req)
   \<and> rs_status (handleCalendlyWebhook hmac (Some sec) add_api m req) = 500
   \<and> rs_submitted (handleCalendlyWebhook hmac (Some sec) add_api m req) = []"
  by (auto simp add: handleCalendlyWebhook_def verifyWebhookSignature_def Let_def)


theorem webhook_wrong_length_signature_witness:
  "truthy ''whsec'' \<and> truthy ''abc''
   \<and> length ''abc'' \<noteq> length (digest44 ''whsec'' ''{}'')
   \<and> rs_status (handleCalendlyWebhook digest44 (Some ''whsec'') add_always Map.empty
        \<lparr>rq_signature = Some ''abc'', rq_body_json = ''{}'', rq_event = ''invitee.created'',
         rq_payload = \<lparr>wh_email = Some ''a@example.com'', wh_name = ''A'',
                        wh_created_at = ''2025-11-01T00:00:00Z''\<rparr>\<rparr>) = 500"
proof -
  let ?req = "\<lparr>rq_signature = Some ''abc'', rq_body_json = ''{}'', rq_event = ''invitee.created'',
         rq_payload = \<lparr>wh_email = Some ''a@example.com'', wh_name = ''A'',
                        wh_created_at = ''2025-11-01T00:00:00Z''\<rparr>\<rparr>"
  have h: "truthy ''whsec''" "truthy ''abc''"
    by (simp_all add: truthy_def)
  have l: "length ''abc'' \<noteq> length (digest44 ''whsec'' (rq_body_json ?req))"
    by (simp add: digest44_def)
  have s: "rq_signature ?req = Some ''abc''" by simp
  from webhook_wrong_length_signature [where hmac = digest44 and sec = "''whsec''"
      and sg = "''abc''" and req = ?req and add_api = add_always and m = Map.empty] h l s
  have "rs_status (handleCalendlyWebhook digest44 (Some ''whsec'') add_always Map.empty ?req) = 500"
    by blast
  then show ?thesis using h l by simp
qed


section \<open>Claims about pagination\<close>

lemma listOrders_loop_unfold:
  "fetch (if truthy_opt nextPageUrl then nextPageUrl else None) = Inr res \<Longrightarrow>
   listOrders_loop fetch nextPageUrl attempts orders =
     (if maxAttempts \<le> attempts + 1 then
        Inr (case sp_orders res of None \<Rightarrow> orders | Some batch \<Rightarrow> orders @ batch,
             attempts + 1, True)
      else if truthy_opt (sp_next res) then
        listOrders_loop fetch (sp_next res) (attempts + 1)
          (case sp_orders res of None \<Rightarrow> orders | Some batch \<Rightarrow> orders @ batch)
      else
        Inr (case sp_orders res of None \<Rightarrow> orders | Some batch \<Rightarrow> orders @ batch,
             attempts + 1, False))"
  by (subst listOrders_loop.simps) simp

lemma listOrders_loop_bound:
  "attempts < maxAttempts \<Longrightarrow> listOrders_loop fetch u attempts os = Inr (os', n, w) \<Longrightarrow>
   attempts < n \<and> n \<le> maxAttempts \<and> (w \<longleftrightarrow> n = maxAttempts)"
proof (induction fetch u attempts os rule: listOrders_loop.induct)
  case (1 fetch nextPageUrl attempts orders)
  from "1.prems"(2) obtain res where
    res: "fetch (if truthy_opt nextPageUrl then nextPageUrl else None) = Inr res"
    by (subst (asm) listOrders_loop.simps) (auto split: sum.splits)
  note unf = listOrders_loop_unfold [where fetch = fetch and nextPageUrl = nextPageUrl and res = res
        and attempts = attempts and orders = orders, OF res]
  show ?case
  proof (cases "maxAttempts \<le> attempts + 1")
    case True
    then show ?thesis
      using "1.prems" unf by auto
  next
    case False
    show ?thesis
    proof (cases "truthy_opt (sp_next res)")
      case True
      have "listOrders_loop fetch (sp_next res) (attempts + 1)
              (case sp_orders res of None \<Rightarrow> orders | Some batch \<Rightarrow> orders @ batch)
            = Inr (os', n, w)"
        using "1.prems"(2) unf False True by simp
      from "1.IH" [OF res False True _ this] False show ?thesis by auto
    next
      case nt: False
      then show ?thesis
        using "1.prems" unf False by auto
    qed
  qed
qed

lemma listOrders_loop_endless:
  "\<forall>rq. \<exists>res. fetch rq = Inr res \<and> truthy_opt (sp_next res) \<Longrightarrow> attempts < maxAttempts \<Longrightarrow>
   \<exists>os'. listOrders_loop fetch u attempts os = Inr (os', maxAttempts, True)"
proof (induction fetch u attempts os rule: listOrders_loop.induct)
  case (1 fetch nextPageUrl attempts orders)
  from "1.prems"(1) obtain res where
    res: "fetch (if truthy_opt nextPageUrl then nextPageUrl else None) = Inr res"
      and nx: "truthy_opt (sp_next res)"
    by blast
  show ?case
  proof (cases "maxAttempts \<le> attempts + 1")
    case True
    then have "attempts + 1 = maxAttempts" using "1.prems"(2) by simp
    then show ?thesis
      using listOrders_loop_unfold [where fetch = fetch and nextPageUrl = nextPageUrl and res = res
        and attempts = attempts and orders = orders, OF res] True by simp
  next
    case False
    from "1.IH" [OF res False nx "1.prems"(1)] False
    obtain os' where "listOrders_loop fetch (sp_next res) (attempts + 1)
              (case sp_orders res of None \<Rightarrow> orders | Some batch \<Rightarrow> orders @ batch)
            = Inr (os', maxAttempts, True)"
      by auto
    then show ?thesis
      using listOrders_loop_unfold [where fetch = fetch and nextPageUrl = nextPageUrl and res = res
        and attempts = attempts and orders = orders, OF res] False nx by simp
  qed
qed

lemma listOrders_stops_at_cap:
  "\<forall>rq. \<exists>res. fetch rq = Inr res \<and> truthy_opt (sp_next res) \<Longrightarrow>
   \<exists>os'. listOrders fetch = Inr (os', 50, True)"
  using listOrders_loop_endless [of fetch 0 None "[]"]
  by (simp add: listOrders_def maxAttempts_def)

lemma scheduledEvents_first_page_only:
  "fetch (ByParams None) = Inr body \<Longrightarrow> scheduledEvents_pages fetch = Some (Inr ([], 1, False))"
  unfolding scheduledEvents_pages_def
  by (subst scheduledEvents_loop.simps) (simp add: getNextPageInfo_def)

lemma invitees_loop_endless:
  "invitees_loop fetch tok acc n = Some y \<Longrightarrow>
   \<not> (\<forall>rq. \<exists>res. fetch rq = Inr res \<and> truthy_opt (cp_next_page_token res))"
proof (induction rule: invitees_loop.raw_induct [rotated 1, consumes 1, case_names step])
  case (step loop fetch tok acc n y)
  show ?case
  proof
    assume e: "\<forall>rq. \<exists>res. fetch rq = Inr res \<and> truthy_opt (cp_next_page_token res)"
    then obtain res where res: "fetch tok = Inr res" "truthy_opt (cp_next_page_token res)"
      by blast
    have "loop fetch (cp_next_page_token res)
            (case cp_collection res of None \<Rightarrow> acc | Some batch \<Rightarrow> acc @ batch) (n + 1) = Some y"
      using step(2) res by simp
    from step(1) [OF this] e show False by blast
  qed
qed


text \<open>
  Claim C7. Every provider fetch is to stop after the maximum page count (50) with a
  warning when the provider announces a further page on every page, and never to loop
  forever. The Shopify loops do: \<open>listOrders\<close> makes at most 50 requests
  (\<open>listOrders_loop_bound\<close>) and, against such a provider, exactly 50 and then warns
  (\<open>listOrders_stops_at_cap\<close>). The Calendly loops have no page count. \<open>listScheduledEvents\<close>
  reads the first response object where it means its body, sees no pagination, and stops
  after one request with no event and no warning; \<open>listInviteesForEvent\<close> follows
  \<open>next_page_token\<close> without bound and does not return.
\<close>

theorem calendly_pagination_has_no_cap:
  "scheduledEvents_pages endless_calendly = Some (Inr ([], 1, False))
   \<and> listInviteesForEvent endless_calendly ''E1'' = None
   \<and> (\<exists>os. listOrders endless_shopify = Inr (os, 50, True))"
proof -
  have a: "scheduledEvents_pages (endless_calendly :: cal_request \<Rightarrow> js_error + nat cal_page)
      = Some (Inr ([], 1, False))"
    by (rule scheduledEvents_first_page_only) (simp add: endless_calendly_def)
  have e: "\<forall>rq::string option. \<exists>res. endless_calendly rq = Inr res \<and> truthy_opt (cp_next_page_token res)"
    by (simp add: endless_calendly_def truthy_opt_def truthy_def)
  have b: "listInviteesForEvent endless_calendly ''E1'' = None"
  proof (cases "invitees_loop (endless_calendly :: string option \<Rightarrow> js_error + nat cal_page) None [] 0")
    case None
    then show ?thesis by (simp add: listInviteesForEvent_def truthy_def)
  next
    case (Some y)
    from invitees_loop_endless [OF this] e show ?thesis by blast
  qed
  have c: "\<exists>os. listOrders endless_shopify = Inr (os, 50, True)"
    by (rule listOrders_stops_at_cap) (simp add: endless_shopify_def truthy_opt_def truthy_def)
  show ?thesis using a b c by blast
qed

section \<open>Claims about candidate records\<close>

lemma map_of_map_set: "map_of (map_set m k v) k' = (if k' = k then Some v else map_of m k')"
  by (induction m k v rule: map_set.induct) auto

lemma set_map_set: "set (map_set m k v) \<subseteq> insert (k, v) (set m)"
  by (induction m k v rule: map_set.induct) auto

lemma keys_map_set: "fst ` set (map_set m k v) = insert k (fst ` set m)"
  by (induction m k v rule: map_set.induct) auto

lemma distinct_map_set: "distinct (map fst m) \<Longrightarrow> distinct (map fst (map_set m k v))"
proof (induction m k v rule: map_set.induct)
  case (1 k v)
  then show ?case by simp
next
  case (2 k' v' kvs k v)
  then show ?case using keys_map_set [of kvs k v] by (auto simp add: image_iff)
qed

lemma keep_latest_distinct:
  "distinct (map fst m) \<Longrightarrow> distinct (map fst (keep_latest sd m k c v))"
  by (simp add: keep_latest_def distinct_map_set)

lemma keep_latest_set:
  "(k', r) \<in> set (keep_latest sd m k c v) \<Longrightarrow> (k', r) \<in> set m \<or> (k' = k \<and> r = v)"
  using set_map_set [of m k v] by (auto simp add: keep_latest_def split: if_splits)

lemma keep_latest_mono:
  "c \<le> sd v \<Longrightarrow> map_of m k' = Some prev \<Longrightarrow>
   \<exists>r. map_of (keep_latest sd m k c v) k' = Some r \<and> sd prev \<le> sd r"
  by (auto simp add: keep_latest_def map_of_map_set)

lemma keep_latest_covers:
  "c \<le> sd v \<Longrightarrow> \<exists>r. map_of (keep_latest sd m k c v) k = Some r \<and> c \<le> sd r"
  by (auto simp add: keep_latest_def map_of_map_set split: option.splits)


lemma latest_fold:
  assumes "\<forall>x \<in> set xs. \<forall>m. step m x
      = (case entry x of None \<Rightarrow> m | Some (k, c, v) \<Rightarrow> keep_latest sd m k c v)"
    and "\<forall>x \<in> set xs. \<forall>k c v. entry x = Some (k, c, v) \<longrightarrow> c \<le> sd v"
  shows "(distinct (map fst m) \<longrightarrow> distinct (map fst (foldl step m xs)))
    \<and> (\<forall>k r. (k, r) \<in> set (foldl step m xs) \<longrightarrow>
           (k, r) \<in> set m \<or> (\<exists>x \<in> set xs. \<exists>c. entry x = Some (k, c, r)))
    \<and> (\<forall>k old. map_of m k = Some old \<longrightarrow>
           (\<exists>r. map_of (foldl step m xs) k = Some r \<and> sd old \<le> sd r))
    \<and> (\<forall>x \<in> set xs. \<forall>k c v. entry x = Some (k, c, v) \<longrightarrow>
           (\<exists>r. map_of (foldl step m xs) k = Some r \<and> c \<le> sd r))"
  using assms
proof (induction xs arbitrary: m)
  case Nil
  then show ?case by simp
next
  case (Cons x xs)
  let ?m = "step m x"
  have sx: "step m x = (case entry x of None \<Rightarrow> m | Some (k, c, v) \<Rightarrow> keep_latest sd m k c v)"
    using Cons.prems(1) by simp
  have lx: "\<And>k c v. entry x = Some (k, c, v) \<Longrightarrow> c \<le> sd v"
    using Cons.prems(2) by simp
  have p1: "\<forall>y \<in> set xs. \<forall>m. step m y
      = (case entry y of None \<Rightarrow> m | Some (k, c, v) \<Rightarrow> keep_latest sd m k c v)"
    using Cons.prems(1) by simp
  have p2: "\<forall>y \<in> set xs. \<forall>k c v. entry y = Some (k, c, v) \<longrightarrow> c \<le> sd v"
    using Cons.prems(2) by simp
  note ih = Cons.IH [OF p1 p2, of ?m]
  have d: "distinct (map fst m) \<Longrightarrow> distinct (map fst ?m)"
    unfolding sx by (auto simp add: keep_latest_distinct split: option.splits)
  have s: "\<And>k r. (k, r) \<in> set ?m \<Longrightarrow> (k, r) \<in> set m \<or> (\<exists>c. entry x = Some (k, c, r))"
    unfolding sx by (auto dest: keep_latest_set split: option.splits)
  have mo: "\<And>k old. map_of m k = Some old \<Longrightarrow> \<exists>r. map_of ?m k = Some r \<and> sd old \<le> sd r"
  proof -
    fix k old assume a: "map_of m k = Some old"
    show "\<exists>r. map_of ?m k = Some r \<and> sd old \<le> sd r"
    proof (cases "entry x")
      case None
      then show ?thesis using a sx by simp
    next
      case (Some t)
      obtain k' c v where t: "t = (k', c, v)" by (cases t)
      have "c \<le> sd v" using lx Some t by simp
      from keep_latest_mono [where sd = sd and c = c and v = v and m = m and k' = k
          and prev = old and k = k'] this a
      show ?thesis using sx Some t by simp
    qed
  qed
  have co: "\<And>k c v. entry x = Some (k, c, v) \<Longrightarrow> \<exists>r. map_of ?m k = Some r \<and> c \<le> sd r"
  proof -
    fix k c v assume a: "entry x = Some (k, c, v)"
    have "c \<le> sd v" using lx a by simp
    from keep_latest_covers [where sd = sd and c = c and v = v and m = m and k = k] this
    show "\<exists>r. map_of ?m k = Some r \<and> c \<le> sd r"
      using sx a by simp
  qed
  show ?case
  proof (intro conjI allI impI ballI)
    assume "distinct (map fst m)"
    then show "distinct (map fst (foldl step m (x # xs)))" using d ih by simp
  next
    fix k r assume "(k, r) \<in> set (foldl step m (x # xs))"
    then have "(k, r) \<in> set ?m \<or> (\<exists>x \<in> set xs. \<exists>c. entry x = Some (k, c, r))"
      using ih by simp
    then show "(k, r) \<in> set m \<or> (\<exists>y \<in> set (x # xs). \<exists>c. entry y = Some (k, c, r))"
      using s by auto
  next
    fix k old assume "map_of m k = Some old"
    from mo [OF this] obtain r1 where r1: "map_of ?m k = Some r1" "sd old \<le> sd r1" by blast
    from ih r1(1) obtain r where "map_of (foldl step ?m xs) k = Some r" "sd r1 \<le> sd r" by blast
    then show "\<exists>r. map_of (foldl step m (x # xs)) k = Some r \<and> sd old \<le> sd r"
      using r1(2) by auto
  next
    fix y k c v assume y: "y \<in> set (x # xs)" and e: "entry y = Some (k, c, v)"
    show "\<exists>r. map_of (foldl step m (x # xs)) k = Some r \<and> c \<le> sd r"
    proof (cases "y \<in> set xs")
      case True
      then show ?thesis using ih e by simp
    next
      case False
      then have "y = x" using y by simp
      from co [OF e [unfolded this]] obtain r1 where r1: "map_of ?m k = Some r1" "c \<le> sd r1"
        by blast
      from ih r1(1) obtain r where "map_of (foldl step ?m xs) k = Some r" "sd r1 \<le> sd r" by blast
      then show ?thesis using r1(2) by auto
    qed
  qed
qed

lemma latest_fold_obj:
  assumes "\<forall>x \<in> set xs. \<forall>m. step m x
      = (case entry x of None \<Rightarrow> m | Some (k, c, v) \<Rightarrow> keep_latest sd m k c v)"
    and "\<forall>x \<in> set xs. \<forall>k c v. entry x = Some (k, c, v) \<longrightarrow> c \<le> sd v"
  shows "distinct (map fst (foldl step [] xs))
    \<and> (\<forall>k r. (k, r) \<in> set (foldl step [] xs) \<longrightarrow>
           (\<exists>x \<in> set xs. \<exists>c. entry x = Some (k, c, r)))
    \<and> (\<forall>x \<in> set xs. \<forall>k c v. entry x = Some (k, c, v) \<longrightarrow>
           (\<exists>r. map_of (foldl step [] xs) k = Some r \<and> c \<le> sd r))"
  using latest_fold [OF assms, of "[]"] by (simp del: map_of_eq_Some_iff)

lemma dedupe_loop_foldl: "dedupe_loop now m ivs = foldl (dedupe_step now) m ivs"
  by (induction ivs arbitrary: m) simp_all


lemma distinct_map_sort_key: "distinct (map g (sort_key f xs)) = distinct (map g xs)"
  by (simp add: distinct_map)

lemma keys_are_emails:
  assumes "\<And>k r. (k, r) \<in> set m \<Longrightarrow> g r = k"
  shows "map g (map snd m) = map fst m"
  using assms by (induction m) auto

lemma dedupe_invitees:
  assumes valid: "\<forall>iv \<in> set ivs. inv_created_at iv \<noteq> None"
  shows "distinct (map row_email (candidate_rows now ivs))
     \<and> (\<forall>r \<in> set (candidate_rows now ivs). \<exists>iv \<in> set ivs. \<exists>e.
           inv_email iv = Some e \<and> truthy e \<and>
           r = \<lparr>row_email = trim (toLowerCase e), row_name = inv_name iv,
                row_created_at = inv_created_at iv, row_event = inv_event_name iv\<rparr>)
     \<and> (\<forall>iv \<in> set ivs. \<forall>e. inv_email iv = Some e \<and> truthy e \<longrightarrow>
           (\<exists>r \<in> set (candidate_rows now ivs). row_email r = trim (toLowerCase e)
              \<and> date_or 0 (inv_created_at iv) \<le> date_or 0 (row_created_at r)))"
proof -
  let ?sd = "\<lambda>cur. date_or 0 (row_created_at cur)"
  let ?entry = "\<lambda>iv. (case inv_email iv of None \<Rightarrow> None
      | Some e \<Rightarrow> if \<not> truthy e then None
          else Some (trim (toLowerCase e), date_or now (inv_created_at iv),
                 \<lparr>row_email = trim (toLowerCase e), row_name = inv_name iv,
                  row_created_at = inv_created_at iv, row_event = inv_event_name iv\<rparr>))"
  let ?m = "dedupe_loop now [] ivs"
  have st: "\<forall>x \<in> set ivs. \<forall>m. dedupe_step now m x
      = (case ?entry x of None \<Rightarrow> m | Some (k, c, v) \<Rightarrow> keep_latest ?sd m k c v)"
    by (simp add: dedupe_step_def Let_def split: option.splits)
  have le: "\<forall>x \<in> set ivs. \<forall>k c v. ?entry x = Some (k, c, v) \<longrightarrow> c \<le> ?sd v"
    using valid by (auto simp add: date_or_def split: option.splits if_splits)
  note f = latest_fold_obj [where step = "dedupe_step now" and entry = ?entry and sd = ?sd
      and xs = ivs, OF st le, folded dedupe_loop_foldl]
  have d: "distinct (map fst ?m)" using f by simp
  have prov: "\<And>k r. (k, r) \<in> set ?m \<Longrightarrow> \<exists>iv \<in> set ivs. \<exists>c. ?entry iv = Some (k, c, r)"
    using f by simp
  have cov: "\<And>iv k c v. iv \<in> set ivs \<Longrightarrow> ?entry iv = Some (k, c, v) \<Longrightarrow>
      \<exists>r. map_of ?m k = Some r \<and> c \<le> ?sd r"
    using f by blast
  have key: "\<And>k r. (k, r) \<in> set ?m \<Longrightarrow> row_email r = k"
  proof -
    fix k r assume "(k, r) \<in> set ?m"
    from prov [OF this] show "row_email r = k"
      by (auto split: option.splits if_splits)
  qed
  have km: "map row_email (map snd ?m) = map fst ?m"
    by (rule keys_are_emails) (rule key)
  have a: "distinct (map row_email (candidate_rows now ivs))"
    unfolding candidate_rows_def distinct_map_sort_key km by (rule d)
  have b: "\<forall>r \<in> set (candidate_rows now ivs). \<exists>iv \<in> set ivs. \<exists>e.
           inv_email iv = Some e \<and> truthy e \<and>
           r = \<lparr>row_email = trim (toLowerCase e), row_name = inv_name iv,
                row_created_at = inv_created_at iv, row_event = inv_event_name iv\<rparr>"
  proof
    fix r assume "r \<in> set (candidate_rows now ivs)"
    then obtain k where "(k, r) \<in> set ?m" by (auto simp add: candidate_rows_def)
    from prov [OF this] show "\<exists>iv \<in> set ivs. \<exists>e.
           inv_email iv = Some e \<and> truthy e \<and>
           r = \<lparr>row_email = trim (toLowerCase e), row_name = inv_name iv,
                row_created_at = inv_created_at iv, row_event = inv_event_name iv\<rparr>"
      by (auto split: option.splits if_splits)
  qed
  have c: "\<forall>iv \<in> set ivs. \<forall>e. inv_email iv = Some e \<and> truthy e \<longrightarrow>
           (\<exists>r \<in> set (candidate_rows now ivs). row_email r = trim (toLowerCase e)
              \<and> date_or 0 (inv_created_at iv) \<le> date_or 0 (row_created_at r))"
  proof (intro ballI allI impI)
    fix iv e assume iv: "iv \<in> set ivs" and e: "inv_email iv = Some e \<and> truthy e"
    have en: "?entry iv = Some (trim (toLowerCase e), date_or now (inv_created_at iv),
                 \<lparr>row_email = trim (toLowerCase e), row_name = inv_name iv,
                  row_created_at = inv_created_at iv, row_event = inv_event_name iv\<rparr>)"
      using e by simp
    from cov [OF iv en] obtain r where r: "map_of ?m (trim (toLowerCase e)) = Some r"
        "date_or now (inv_created_at iv) \<le> ?sd r" by blast
    have mem: "(trim (toLowerCase e), r) \<in> set ?m" using r(1) by (rule map_of_SomeD)
    have "date_or now (inv_created_at iv) = date_or 0 (inv_created_at iv)"
      using valid iv by (auto simp add: date_or_def)
    then show "\<exists>r \<in> set (candidate_rows now ivs). row_email r = trim (toLowerCase e)
              \<and> date_or 0 (inv_created_at iv) \<le> date_or 0 (row_created_at r)"
      using mem key [OF mem] r(2) by (force simp add: candidate_rows_def)
  qed
  show ?thesis using a b c by blast
qed

lemma order_customer_sel:
  "cu_email (order_customer e od) = e"
  "cu_created_at (order_customer e od) = o_created_at od"
  "cu_order_id (order_customer e od) = o_id od"
  by (simp_all add: order_customer_def)


lemma two_invitees_one_row:
  "inv_email a = Some ea \<Longrightarrow> inv_email b = Some eb \<Longrightarrow> truthy ea \<Longrightarrow> truthy eb \<Longrightarrow>
   trim (toLowerCase ea) = trim (toLowerCase eb) \<Longrightarrow>
   inv_created_at a = Some ta \<Longrightarrow> inv_created_at b = Some tb \<Longrightarrow>
   candidate_rows now [a, b] =
     [if ta < tb
      then \<lparr>row_email = trim (toLowerCase ea), row_name = inv_name b,
            row_created_at = Some tb, row_event = inv_event_name b\<rparr>
      else \<lparr>row_email = trim (toLowerCase ea), row_name = inv_name a,
            row_created_at = Some ta, row_event = inv_event_name a\<rparr>]"
  by (simp add: candidate_rows_def dedupe_step_def keep_latest_def date_or_def Let_def)

lemma run_one_not_in_list:
  assumes "\<not> dryRun opt" and "batchSize opt = Some bs" and "1 \<le> bs" and "content d = None"
    and "getSubscriberStatus api (it_email r) lst = Status ''not-in-list''"
  shows "map_option out_calls (run opt lst d api sub now [r]) = Some [r]"
    and "map_option out_checked (run opt lst d api sub now [r]) = Some [it_email r]"
proof -
  obtain d1 fc1 where p: "(if noPersistentCache opt then (d, new_FileCache)
             else (let fc = load d new_FileCache in
                   if refreshPersistent opt then clear d fc else (d, fc))) = (d1, fc1)"
    by (cases "(if noPersistentCache opt then (d, new_FileCache)
             else (let fc = load d new_FileCache in
                   if refreshPersistent opt then clear d fc else (d, fc)))")
  have fc: "fc_data fc1 = Map.empty" and dd: "content d1 = None \<or> content d1 = Some (Parsed Map.empty)"
    using p assms(4)
    by (auto simp add: new_FileCache_def load_def clear_def save_def Let_def split: if_splits)
  have l: "fc_data (load d1 fc1) = Map.empty"
    using fc dd by (auto simp add: load_def split: option.splits file_content.splits)
  have miss: "\<not> snd (hasEmail d1 fc1 lst e)" for e
    using l hasEmail_loaded [OF load_loaded, of d1 d1 fc1 lst e]
    by (simp add: hasEmail_load persistent_hit_def)
  let ?st = "sync_step opt lst d1 api now (initial_state Map.empty fc1) r"
  have q: "toSubscribe ?st = [r]" and ck: "checked ?st = [it_email r]"
    using assms(5) miss
    by (simp_all add: sync_step_def Let_def split_beta initial_state_def cache_get_def)
  have b: "bulkSubscribe sub lst [r] (dryRun opt) (batchSize opt)
      = Some (bulk_batch sub lst False [r] ([], []))"
    using assms(1,2,3) by (simp add: bulkSubscribe_returns)
  have calls: "snd (bulk_batch sub lst False [r] ([], [])) = [r]"
    by (simp add: Let_def)
  obtain rs cs where bb: "bulk_batch sub lst False [r] ([], []) = (rs, cs)"
    by (cases "bulk_batch sub lst False [r] ([], [])")
  then have cs: "cs = [r]" using calls by simp
  show "map_option out_calls (run opt lst d api sub now [r]) = Some [r]"
    using p q b bb cs by (simp add: run_def Let_def split_beta)
  show "map_option out_checked (run opt lst d api sub now [r]) = Some [it_email r]"
    using p q ck b bb cs by (simp add: run_def Let_def split_beta)
qed

lemma two_orders_one_customer:
  "order_email oa = Some e \<Longrightarrow> order_email ob = Some e \<Longrightarrow> truthy e \<Longrightarrow>
   extractEmailsFromOrders [oa, ob] =
     [if date_or 0 (o_created_at oa) < date_or 0 (o_created_at ob)
      then order_customer e ob else order_customer e oa]"
  by (simp add: extractEmailsFromOrders_def extract_step_def keep_latest_def order_customer_sel)

text \<open>
  Claim C4. Candidate records are to be deduplicated by lower-cased, trimmed email, keeping
  the record with the most recent \<open>created_at\<close> among those sharing an email. The Calendly
  script compares an arriving invitee by \<open>inv.created_at || Date.now()\<close> and the stored one
  by \<open>cur.created_at || 0\<close>: an invitee without \<open>created_at\<close> replaces any stored record and
  is then replaced by any dated arrival. For three invitees of one email, the first dated
  most recently, the second undated and the third dated earlier, the script keeps the
  third, the oldest dated record; without the undated invitee it keeps the first.
  \<open>extractEmailsFromOrders\<close> reads a missing date as the epoch on both sides and keeps the
  most recent order on the same input. For invitees that all carry a \<open>created_at\<close> the
  most recent one is kept (\<open>dedupe_invitees\<close>, \<open>two_invitees_one_row\<close>), and a live run then
  issues one subscribe call for the email (\<open>run_one_not_in_list\<close>).
\<close>

theorem undated_invitee_keeps_older_record:
  assumes same: "inv_email a = Some ea \<and> inv_email b = Some eb \<and> inv_email c = Some ec
        \<and> truthy ea \<and> truthy eb \<and> truthy ec
        \<and> trim (toLowerCase eb) = trim (toLowerCase ea)
        \<and> trim (toLowerCase ec) = trim (toLowerCase ea)"
    and dates: "inv_created_at a = Some ta \<and> inv_created_at b = None \<and> inv_created_at c = Some tc
        \<and> 0 < tc \<and> tc < ta \<and> ta < now"
    and orders: "o_email oa = Some ea \<and> o_email ob = Some eb \<and> o_email oc = Some ec
        \<and> truthy (trim (toLowerCase ea))
        \<and> o_created_at oa = Some ta \<and> o_created_at ob = None \<and> o_created_at oc = Some tc"
  shows "candidate_rows now [a, b, c]
           = [\<lparr>row_email = trim (toLowerCase ea), row_name = inv_name c,
               row_created_at = Some tc, row_event = inv_event_name c\<rparr>]
       \<and> candidate_rows now [a, c]
           = [\<lparr>row_email = trim (toLowerCase ea), row_name = inv_name a,
               row_created_at = Some ta, row_event = inv_event_name a\<rparr>]
       \<and> extractEmailsFromOrders [oa, ob, oc] = [order_customer (trim (toLowerCase ea)) oa]"
proof -
  have abc: "candidate_rows now [a, b, c]
           = [\<lparr>row_email = trim (toLowerCase ea), row_name = inv_name c,
               row_created_at = Some tc, row_event = inv_event_name c\<rparr>]"
    using same dates
    by (simp add: candidate_rows_def dedupe_step_def keep_latest_def date_or_def Let_def)
  have ac: "candidate_rows now [a, c]
           = [\<lparr>row_email = trim (toLowerCase ea), row_name = inv_name a,
               row_created_at = Some ta, row_event = inv_event_name a\<rparr>]"
    using same dates
    by (simp add: candidate_rows_def dedupe_step_def keep_latest_def date_or_def Let_def)
  have e: "order_email oa = Some (trim (toLowerCase ea))"
      "order_email ob = Some (trim (toLowerCase ea))"
      "order_email oc = Some (trim (toLowerCase ea))"
    using same orders by (simp_all add: order_email_def truthy_opt_def)
  have shop: "extractEmailsFromOrders [oa, ob, oc] = [order_customer (trim (toLowerCase ea)) oa]"
    using e orders dates
    by (simp add: extractEmailsFromOrders_def extract_step_def keep_latest_def date_or_def
        order_customer_sel)
  show ?thesis using abc ac shop by blast
qed

theorem undated_invitee_keeps_older_record_witness:
  "candidate_rows 1762041600000
     [\<lparr>inv_email = Some ''a@example.com'', inv_name = ''Second'',
       inv_created_at = Some 1735776000000, inv_event_name = None\<rparr>,
      \<lparr>inv_email = Some ''A@Example.com '', inv_name = ''Undated'',
       inv_created_at = None, inv_event_name = None\<rparr>,
      \<lparr>inv_email = Some ''a@example.com'', inv_name = ''First'',
       inv_created_at = Some 1735689600000, inv_event_name = None\<rparr>]
     = [\<lparr>row_email = ''a@example.com'', row_name = ''First'',
         row_created_at = Some 1735689600000, row_event = None\<rparr>]
   \<and> candidate_rows 1762041600000
     [\<lparr>inv_email = Some ''a@example.com'', inv_name = ''Second'',
       inv_created_at = Some 1735776000000, inv_event_name = None\<rparr>,
      \<lparr>inv_email = Some ''a@example.com'', inv_name = ''First'',
       inv_created_at = Some 1735689600000, inv_event_name = None\<rparr>]
     = [\<lparr>row_email = ''a@example.com'', row_name = ''Second'',
         row_created_at = Some 1735776000000, row_event = None\<rparr>]
   \<and> extractEmailsFromOrders
     [\<lparr>o_email = Some ''a@example.com'', o_customer = None, o_billing_address = None,
       o_created_at = Some 1735776000000, o_id = 2, o_order_number = None, o_name = None,
       o_total_price = None\<rparr>,
      \<lparr>o_email = Some ''A@Example.com '', o_customer = None, o_billing_address = None,
       o_created_at = None, o_id = 3, o_order_number = None, o_name = None,
       o_total_price = None\<rparr>,
      \<lparr>o_email = Some ''a@example.com'', o_customer = None, o_billing_address = None,
       o_created_at = Some 1735689600000, o_id = 1, o_order_number = None, o_name = None,
       o_total_price = None\<rparr>]
     = [\<lparr>cu_email = ''a@example.com'', cu_name = ''a'',
         cu_created_at = Some 1735776000000, cu_order_id = 2, cu_order_number = None,
         cu_order_value = ''0.00''\<rparr>]"
proof -
  let ?a = "\<lparr>inv_email = Some ''a@example.com'', inv_name = ''Second'',
       inv_created_at = Some 1735776000000, inv_event_name = None\<rparr>"
  let ?b = "\<lparr>inv_email = Some ''A@Example.com '', inv_name = ''Undated'',
       inv_created_at = None, inv_event_name = None\<rparr>"
  let ?c = "\<lparr>inv_email = Some ''a@example.com'', inv_name = ''First'',
       inv_created_at = Some 1735689600000, inv_event_name = None\<rparr>"
  let ?oa = "\<lparr>o_email = Some ''a@example.com'', o_customer = None, o_billing_address = None,
       o_created_at = Some 1735776000000, o_id = 2, o_order_number = None, o_name = None,
       o_total_price = None\<rparr>"
  let ?ob = "\<lparr>o_email = Some ''A@Example.com '', o_customer = None, o_billing_address = None,
       o_created_at = None, o_id = 3, o_order_number = None, o_name = None,
       o_total_price = None\<rparr>"
  let ?oc = "\<lparr>o_email = Some ''a@example.com'', o_customer = None, o_billing_address = None,
       o_created_at = Some 1735689600000, o_id = 1, o_order_number = None, o_name = None,
       o_total_price = None\<rparr>"
  have n: "trim (toLowerCase ''A@Example.com '') = ''a@example.com''"
      "trim (toLowerCase ''a@example.com'') = ''a@example.com''"
    by (simp_all add: str_eval)
  have same: "inv_email ?a = Some ''a@example.com'' \<and> inv_email ?b = Some ''A@Example.com ''
        \<and> inv_email ?c = Some ''a@example.com''
        \<and> truthy ''a@example.com'' \<and> truthy ''A@Example.com '' \<and> truthy ''a@example.com''
        \<and> trim (toLowerCase ''A@Example.com '') = trim (toLowerCase ''a@example.com'')
        \<and> trim (toLowerCase ''a@example.com'') = trim (toLowerCase ''a@example.com'')"
    by (simp add: truthy_def n)
  have dates: "inv_created_at ?a = Some 1735776000000 \<and> inv_created_at ?b = None
        \<and> inv_created_at ?c = Some 1735689600000
        \<and> (0::int) < 1735689600000 \<and> (1735689600000::int) < 1735776000000
        \<and> (1735776000000::int) < 1762041600000"
    by simp
  have orders: "o_email ?oa = Some ''a@example.com'' \<and> o_email ?ob = Some ''A@Example.com ''
        \<and> o_email ?oc = Some ''a@example.com''
        \<and> truthy (trim (toLowerCase ''a@example.com''))
        \<and> o_created_at ?oa = Some 1735776000000 \<and> o_created_at ?ob = None
        \<and> o_created_at ?oc = Some 1735689600000"
    by (simp add: truthy_def n)
  note inst = undated_invitee_keeps_older_record [where a = ?a and b = ?b and c = ?c
      and ea = "''a@example.com''" and eb = "''A@Example.com ''" and ec = "''a@example.com''"
      and ta = 1735776000000 and tc = 1735689600000 and now = 1762041600000
      and oa = ?oa and ob = ?ob and oc = ?oc, OF same dates orders]
  have cust: "order_customer ''a@example.com'' ?oa
      = \<lparr>cu_email = ''a@example.com'', cu_name = ''a'',
         cu_created_at = Some 1735776000000, cu_order_id = 2, cu_order_number = None,
         cu_order_value = ''0.00''\<rparr>"
    by (simp add: order_customer_def order_name_def trim_def truthy_def truthy_opt_def)
  show ?thesis using inst unfolding n cust by simp
qed


section \<open>Claims about the cache keys\<close>



lemma dropWhile_rev_clean:
  "xs \<noteq> [] \<Longrightarrow> \<not> P (last xs) \<Longrightarrow> dropWhile P (rev xs) = rev xs"
  by (cases xs rule: rev_cases) simp_all













































end
